theory Spec2Isabelle
  imports Complex_Main
begin

section \<open>Exceptions\<close>

text \<open>
  The Python exceptions the crawler core can meet. \<open>RequestError\<close> is
  \<^verbatim>\<open>httpx.RequestError\<close>; \<open>BaseOnly\<close> stands for an exception that derives from
  \<^verbatim>\<open>BaseException\<close> but not from \<^verbatim>\<open>Exception\<close> (\<^verbatim>\<open>asyncio.CancelledError\<close>,
  \<^verbatim>\<open>KeyboardInterrupt\<close>, \<^verbatim>\<open>SystemExit\<close>), which an \<^verbatim>\<open>except Exception\<close> clause
  does not catch.
\<close>

datatype exn =
    ValueError | IndexError | ZeroDivisionError | RequestError | OtherException | BaseOnly

definition is_Exception :: "exn \<Rightarrow> bool" where
  "is_Exception e = (e \<noteq> BaseOnly)"

section \<open>The standard library's URL functions\<close>

text \<open>
  \<^verbatim>\<open>urllib.parse.urlparse\<close> and \<^verbatim>\<open>urllib.parse.urlunparse\<close> belong to the Python
  standard library, not to the crawler. The crawler's functions take them as a
  parameter \<open>U\<close>; \<open>urlparse\<close> may raise (\<^verbatim>\<open>ValueError\<close> on a malformed authority).
\<close>

record parsed_url =
  scheme :: string
  netloc :: string
  path :: string
  params :: string
  query :: string
  fragment :: string

record urllib =
  urlparse :: "string \<Rightarrow> exn + parsed_url"
  urlunparse :: "parsed_url \<Rightarrow> string"

text \<open>
  A concrete instance for URLs of the shape \<^verbatim>\<open>scheme://netloc/path?query#fragment\<close>,
  following \<^verbatim>\<open>urlsplit\<close>: the fragment is cut at the first \<^verbatim>\<open>#\<close>, the query at the
  first \<^verbatim>\<open>?\<close>, the authority ends at the first \<^verbatim>\<open>/\<close>, and an authority with an
  unmatched square bracket raises \<^verbatim>\<open>ValueError\<close>. It is used to evaluate the model
  on concrete URLs.
\<close>

fun split_scheme :: "string \<Rightarrow> string \<Rightarrow> (string \<times> string) option" where
  "split_scheme acc [] = None"
| "split_scheme acc (c # cs) =
     (if c = CHR '':'' then
        (case cs of
           a # b # rest \<Rightarrow> if a = CHR ''/'' \<and> b = CHR ''/'' then Some (rev acc, rest) else None
         | _ \<Rightarrow> None)
      else split_scheme (c # acc) cs)"

definition urlparse_generic :: "string \<Rightarrow> exn + parsed_url" where
  "urlparse_generic u =
     (let body = takeWhile (\<lambda>c. c \<noteq> CHR ''#'') u;
          frag = drop (Suc (length body)) u;
          front = takeWhile (\<lambda>c. c \<noteq> CHR ''?'') body;
          qry = drop (Suc (length front)) body
      in case split_scheme [] front of
           None \<Rightarrow>
             Inr \<lparr>scheme = [], netloc = [], path = front, params = [],
                  query = qry, fragment = frag\<rparr>
         | Some (sch, rest) \<Rightarrow>
             let host = takeWhile (\<lambda>c. c \<noteq> CHR ''/'') rest;
                 pth = drop (length host) rest
             in if (CHR ''['' \<in> set host) \<noteq> (CHR '']'' \<in> set host) then Inl ValueError
                else Inr \<lparr>scheme = sch, netloc = host, path = pth, params = [],
                         query = qry, fragment = frag\<rparr>)"

definition urlunparse_generic :: "parsed_url \<Rightarrow> string" where
  "urlunparse_generic p =
     (if netloc p = [] then scheme p else scheme p @ ''://'' @ netloc p)
     @ path p
     @ (if query p = [] then [] else CHR ''?'' # query p)
     @ (if fragment p = [] then [] else CHR ''#'' # fragment p)"

definition generic_urllib :: urllib where
  "generic_urllib = \<lparr>urlparse = urlparse_generic, urlunparse = urlunparse_generic\<rparr>"

section \<open>utils.py\<close>

definition get_domain :: "urllib \<Rightarrow> string \<Rightarrow> exn + string" where
  "get_domain U u = (case urlparse U u of Inl e \<Rightarrow> Inl e | Inr p \<Rightarrow> Inr (netloc p))"

text \<open>\<^verbatim>\<open>str.lower\<close> on ASCII text: the letters A to Z move to a to z.\<close>

definition lower_char :: "char \<Rightarrow> char" where
  "lower_char c =
     (case map_of (zip ''ABCDEFGHIJKLMNOPQRSTUVWXYZ'' ''abcdefghijklmnopqrstuvwxyz'') c of
        None \<Rightarrow> c
      | Some l \<Rightarrow> l)"

definition lower :: "string \<Rightarrow> string" where
  "lower s = map lower_char s"

definition endswith :: "string \<Rightarrow> string \<Rightarrow> bool" where
  "endswith s t = (length t \<le> length s \<and> drop (length s - length t) s = t)"

definition same_domain :: "urllib \<Rightarrow> string \<Rightarrow> string list \<Rightarrow> exn + bool" where
  "same_domain U u domains =
     (case get_domain U u of
        Inl e \<Rightarrow> Inl e
      | Inr n \<Rightarrow> Inr (list_ex (\<lambda>d. endswith (lower n) (lower d)) domains))"

definition normalize_url :: "urllib \<Rightarrow> string \<Rightarrow> exn + string" where
  "normalize_url U u =
     (case urlparse U u of
        Inl e \<Rightarrow> Inl e
      | Inr p \<Rightarrow> Inr (urlunparse U (p\<lparr>fragment := []\<rparr>)))"

section \<open>anti_bot.py\<close>

subsection \<open>RobotsCache\<close>

text \<open>
  \<^verbatim>\<open>urllib.robotparser.RobotFileParser\<close> is the standard library's class. Its state
  is the three fields \<^verbatim>\<open>can_fetch\<close> tests first and the parsed entries; the search
  through the entries (which unquotes and re-parses the URL and may raise) is
  the function \<open>rp_rules\<close>. \<open>last_checked\<close> is 0 until \<^verbatim>\<open>parse\<close> has run.
\<close>

record RobotFileParser =
  rp_url :: string
  rp_host :: string
  rp_path :: string
  disallow_all :: bool
  allow_all :: bool
  last_checked :: real
  rp_rules :: "string \<Rightarrow> string \<Rightarrow> exn + bool"

text \<open>\<^verbatim>\<open>RobotFileParser()\<close>: no entries, nothing read yet.\<close>

definition RobotFileParser_new :: RobotFileParser where
  "RobotFileParser_new =
     \<lparr>rp_url = [], rp_host = [], rp_path = [], disallow_all = False, allow_all = False,
      last_checked = 0, rp_rules = (\<lambda>ua u. Inr True)\<rparr>"

definition set_url :: "urllib \<Rightarrow> RobotFileParser \<Rightarrow> string \<Rightarrow> exn + RobotFileParser" where
  "set_url U rp u =
     (case urlparse U u of
        Inl e \<Rightarrow> Inl e
      | Inr p \<Rightarrow> Inr (rp\<lparr>rp_url := u, rp_host := netloc p, rp_path := path p\<rparr>))"

text \<open>
  \<^verbatim>\<open>can_fetch\<close>: the flags first; then, "until the robots.txt file has been read
  or found not to exist, we must assume that no url is allowable"; then the entries.
\<close>

definition can_fetch :: "RobotFileParser \<Rightarrow> string \<Rightarrow> string \<Rightarrow> exn + bool" where
  "can_fetch rp ua u =
     (if disallow_all rp then Inr False
      else if allow_all rp then Inr True
      else if last_checked rp = 0 then Inr False
      else rp_rules rp ua u)"

text \<open>
  The outside world of one \<^verbatim>\<open>fetch\<close> call. \<open>robots_read\<close> is the effect of
  \<^verbatim>\<open>rp.read()\<close> on a parser whose URL is set: the parser after the download and
  parse, or the exception raised. \<open>http_get\<close> is the outcome of the GET for a URL,
  a proxy and an attempt index. \<open>loop_time\<close> is the reading of the event loop's
  clock when the backoff of an attempt is computed; \<open>wait_t0\<close> and \<open>wait_t1\<close> are
  the two readings of \<^verbatim>\<open>time.time()\<close> inside \<^verbatim>\<open>DomainRateLimiter.wait\<close>.
\<close>

datatype get_outcome = Response int string | Raises exn

record world =
  robots_read :: "RobotFileParser \<Rightarrow> exn + RobotFileParser"
  http_get :: "string \<Rightarrow> string option \<Rightarrow> nat \<Rightarrow> get_outcome"
  loop_time :: "nat \<Rightarrow> real"
  wait_t0 :: real
  wait_t1 :: real

record RobotsCache =
  user_agent :: string
  cache :: "string \<rightharpoonup> RobotFileParser"

definition robots_url :: "urllib \<Rightarrow> string \<Rightarrow> exn + string" where
  "robots_url U u =
     (case urlparse U u of
        Inl e \<Rightarrow> Inl e
      | Inr p \<Rightarrow> Inr (scheme p @ ''://'' @ netloc p @ ''/robots.txt''))"

text \<open>
  The first half of \<^verbatim>\<open>allowed\<close>: the parser for a domain that is not cached yet.
  A parser object is always truthy, so \<^verbatim>\<open>rp or RobotFileParser()\<close> is the parser
  that was read, or a new one when \<^verbatim>\<open>read\<close> raised and \<open>rp\<close> became \<^verbatim>\<open>None\<close>.
\<close>

definition load_robots ::
  "world \<Rightarrow> urllib \<Rightarrow> string \<Rightarrow> exn + RobotFileParser" where
  "load_robots W U u =
     (case robots_url U u of
        Inl e \<Rightarrow> Inl e
      | Inr ru \<Rightarrow>
          (case set_url U RobotFileParser_new ru of
             Inl e \<Rightarrow> Inl e
           | Inr rp \<Rightarrow>
               (case robots_read W rp of
                  Inl e \<Rightarrow> (if is_Exception e then Inr RobotFileParser_new else Inl e)
                | Inr rp' \<Rightarrow> Inr rp')))"

text \<open>\<^verbatim>\<open>allowed\<close> returns its answer, or the exception it raises, and the cache.\<close>

definition allowed ::
  "world \<Rightarrow> urllib \<Rightarrow> RobotsCache \<Rightarrow> string \<Rightarrow> (exn + bool) \<times> RobotsCache" where
  "allowed W U rc u =
     (case urlparse U u of
        Inl e \<Rightarrow> (Inl e, rc)
      | Inr p \<Rightarrow>
          (let domain = netloc p;
               loaded = (if domain \<in> dom (cache rc) then Inr rc
                         else (case load_robots W U u of
                                 Inl e \<Rightarrow> Inl e
                               | Inr rp \<Rightarrow> Inr (rc\<lparr>cache := (cache rc)(domain \<mapsto> rp)\<rparr>)))
           in (case loaded of
                 Inl e \<Rightarrow> (Inl e, rc)
               | Inr rc' \<Rightarrow>
                   (case cache rc' domain of
                      None \<Rightarrow> (Inr True, rc')
                    | Some rp \<Rightarrow>
                        (case can_fetch rp (user_agent rc') u of
                           Inl e \<Rightarrow> (if is_Exception e then (Inr True, rc') else (Inl e, rc'))
                         | Inr b \<Rightarrow> (Inr b, rc'))))))"

subsection \<open>BackoffStrategy\<close>

text \<open>
  Python floats are modelled as reals: exact and unbounded. \<open>float_mod\<close> is
  \<^verbatim>\<open>x % y\<close> on floats: it raises on a zero divisor, and otherwise the result has the
  sign of the divisor.
\<close>

record BackoffStrategy =
  initial_ms :: int
  max_ms :: int

definition backoff_base :: "BackoffStrategy \<Rightarrow> int \<Rightarrow> int" where
  "backoff_base b attempt = min (initial_ms b * 2 ^ nat (max 0 (attempt - 1))) (max_ms b)"

definition float_mod :: "real \<Rightarrow> real \<Rightarrow> exn + real" where
  "float_mod x y =
     (if y = 0 then Inl ZeroDivisionError else Inr (x - y * of_int \<lfloor>x / y\<rfloor>))"

definition compute_delay_ms :: "BackoffStrategy \<Rightarrow> real \<Rightarrow> int \<Rightarrow> exn + real" where
  "compute_delay_ms b t attempt =
     (let base = backoff_base b attempt;
          jitter = of_int base * 0.2
      in case float_mod t jitter of
           Inl e \<Rightarrow> Inl e
         | Inr m \<Rightarrow> Inr (of_int base + m - jitter / 2))"

subsection \<open>DomainRateLimiter\<close>

record DomainRateLimiter =
  delay_ms :: int
  last_request_ts :: "string \<rightharpoonup> real"

text \<open>
  \<^verbatim>\<open>wait\<close> with its two clock readings: the limiter afterwards, and the sleep it
  made, if any.
\<close>

definition wait ::
  "DomainRateLimiter \<Rightarrow> string \<Rightarrow> real \<Rightarrow> real \<Rightarrow> DomainRateLimiter \<times> real option" where
  "wait rl domain now now' =
     (let last = (case last_request_ts rl domain of None \<Rightarrow> 0 | Some t \<Rightarrow> t);
          wait_s = of_int (delay_ms rl) / 1000 - (now - last)
      in (rl\<lparr>last_request_ts := (last_request_ts rl)(domain \<mapsto> now')\<rparr>,
          if wait_s > 0 then Some wait_s else None))"

section \<open>fetcher.py\<close>

subsection \<open>ProxyPool\<close>

record ProxyPool =
  proxies :: "string list"
  fail_threshold :: int
  fail_counts :: "string \<rightharpoonup> int"
  idx :: nat

definition ProxyPool_init :: "string list \<Rightarrow> int \<Rightarrow> ProxyPool" where
  "ProxyPool_init ps threshold =
     \<lparr>proxies = ps, fail_threshold = threshold,
      fail_counts = map_of (map (\<lambda>p. (p, 0)) ps), idx = 0\<rparr>"

text \<open>\<^verbatim>\<open>self.fail_counts.get(proxy, 0)\<close>\<close>

definition get_count :: "ProxyPool \<Rightarrow> string \<Rightarrow> int" where
  "get_count pool p = (case fail_counts pool p of None \<Rightarrow> 0 | Some c \<Rightarrow> c)"

text \<open>
  The \<^verbatim>\<open>while True\<close> loop of \<^verbatim>\<open>next\<close>. \<open>None\<close> is a loop that never returns;
  \<open>Inl IndexError\<close> is \<^verbatim>\<open>self.proxies[self._idx]\<close> out of range.
\<close>

partial_function (option) next_loop ::
  "ProxyPool \<Rightarrow> nat \<Rightarrow> (exn + string option \<times> ProxyPool) option" where
  "next_loop pool start =
     (if length (proxies pool) \<le> idx pool then Some (Inl IndexError)
      else
        let proxy = proxies pool ! idx pool;
            pool' = pool\<lparr>idx := (idx pool + 1) mod length (proxies pool)\<rparr>
        in if get_count pool' proxy < fail_threshold pool' then Some (Inr (Some proxy, pool'))
           else if idx pool' = start then Some (Inr (None, pool'))
           else next_loop pool' start)"

definition next_proxy :: "ProxyPool \<Rightarrow> (exn + string option \<times> ProxyPool) option" where
  "next_proxy pool =
     (if proxies pool = [] then Some (Inr (None, pool))
      else next_loop pool (idx pool))"

text \<open>\<^verbatim>\<open>if not proxy: return\<close> leaves on \<^verbatim>\<open>None\<close> and on the empty string.\<close>

definition mark_failure :: "ProxyPool \<Rightarrow> string option \<Rightarrow> ProxyPool" where
  "mark_failure pool proxy =
     (case proxy of
        None \<Rightarrow> pool
      | Some p \<Rightarrow>
          if p = [] then pool
          else pool\<lparr>fail_counts := (fail_counts pool)(p \<mapsto> get_count pool p + 1)\<rparr>)"

definition mark_success :: "ProxyPool \<Rightarrow> string option \<Rightarrow> ProxyPool" where
  "mark_success pool proxy =
     (case proxy of
        None \<Rightarrow> pool
      | Some p \<Rightarrow>
          if p = [] then pool
          else pool\<lparr>fail_counts := (fail_counts pool)(p \<mapsto> 0)\<rparr>)"

text \<open>A run of calls on one pool; the answer of \<^verbatim>\<open>next\<close> is dropped.\<close>

datatype pool_call = Next | MarkFailure "string option" | MarkSuccess "string option"

definition pool_step :: "ProxyPool \<Rightarrow> pool_call \<Rightarrow> ProxyPool" where
  "pool_step pool c =
     (case c of
        Next \<Rightarrow> (case next_proxy pool of Some (Inr (r, pool')) \<Rightarrow> pool' | _ \<Rightarrow> pool)
      | MarkFailure p \<Rightarrow> mark_failure pool p
      | MarkSuccess p \<Rightarrow> mark_success pool p)"

definition pool_calls :: "ProxyPool \<Rightarrow> pool_call list \<Rightarrow> ProxyPool" where
  "pool_calls pool cs = foldl pool_step pool cs"

subsection \<open>Fetcher\<close>

text \<open>
  The fields of \<^verbatim>\<open>Fetcher\<close> that \<^verbatim>\<open>fetch\<close> reads. The random request headers do
  not influence the control flow and are left out; building the per-proxy client
  is part of the outcome of the GET.
\<close>

record Fetcher =
  rate_limiter :: DomainRateLimiter
  backoff :: BackoffStrategy
  robots :: RobotsCache
  proxy_pool :: ProxyPool
  max_retries :: int
  respect_robots :: bool

definition Fetcher_init ::
  "string list \<Rightarrow> int \<Rightarrow> int \<Rightarrow> int \<Rightarrow> int \<Rightarrow> bool \<Rightarrow> Fetcher" where
  "Fetcher_init ps per_domain_delay_ms retries backoff_initial_ms backoff_max_ms respect =
     \<lparr>rate_limiter = \<lparr>delay_ms = per_domain_delay_ms, last_request_ts = Map.empty\<rparr>,
      backoff = \<lparr>initial_ms = backoff_initial_ms, max_ms = backoff_max_ms\<rparr>,
      robots = \<lparr>user_agent = ''*'', cache = Map.empty\<rparr>,
      proxy_pool = ProxyPool_init ps 3,
      max_retries = retries,
      respect_robots = respect\<rparr>"

text \<open>
  What a \<^verbatim>\<open>fetch\<close> call does to the outside, in order: a call of the rate limiter,
  a network attempt for the page (with the proxy), a backoff sleep (seconds).
\<close>

datatype event = RateWait string | HttpGet string "string option" | Sleep real

definition retryable :: "int \<Rightarrow> bool" where
  "retryable status = (status \<in> {403, 429, 500, 502, 503})"

text \<open>Python truth of an \<^verbatim>\<open>Optional[str]\<close>.\<close>

definition truthy :: "string option \<Rightarrow> bool" where
  "truthy p = (case p of None \<Rightarrow> False | Some s \<Rightarrow> s \<noteq> [])"

type_synonym fetch_result = "(exn + int \<times> string) \<times> Fetcher \<times> event list"

text \<open>
  The retry loop of \<^verbatim>\<open>fetch\<close>. The result is what \<^verbatim>\<open>fetch\<close> returns or raises, the
  fetcher afterwards and the events so far; \<open>None\<close> only if \<^verbatim>\<open>next\<close> never returns.
  An exception inside the \<^verbatim>\<open>try\<close> body is handled by the two \<^verbatim>\<open>except\<close> clauses;
  one raised inside the \<^verbatim>\<open>except httpx.RequestError\<close> clause leaves \<^verbatim>\<open>fetch\<close>.
\<close>

function retry_loop ::
  "world \<Rightarrow> Fetcher \<Rightarrow> string \<Rightarrow> string option \<Rightarrow> int \<Rightarrow> event list \<Rightarrow> fetch_result option"
where
  "retry_loop W f u proxy_used attempt tr =
     (if attempt \<le> max_retries f then
        (case (if truthy proxy_used then Some (Inr (proxy_used, proxy_pool f))
               else next_proxy (proxy_pool f)) of
           None \<Rightarrow> None
         | Some (Inl e) \<Rightarrow> Some (Inl e, f, tr)
         | Some (Inr (pu, pool1)) \<Rightarrow>
             let f1 = f\<lparr>proxy_pool := pool1\<rparr>;
                 tr1 = tr @ [HttpGet u pu]
             in (case http_get W u pu (nat attempt) of
                   Response status text \<Rightarrow>
                     if retryable status then
                       (case compute_delay_ms (backoff f1) (loop_time W (nat attempt)) (attempt + 1) of
                          Inl e \<Rightarrow>
                            if is_Exception e then Some (Inr (520, ''Unexpected error''), f1, tr1)
                            else Some (Inl e, f1, tr1)
                        | Inr delay \<Rightarrow>
                            retry_loop W (f1\<lparr>proxy_pool := mark_failure pool1 pu\<rparr>) u None
                              (attempt + 1) (tr1 @ [Sleep (delay / 1000)]))
                     else Some (Inr (status, text), f1\<lparr>proxy_pool := mark_success pool1 pu\<rparr>, tr1)
                 | Raises e \<Rightarrow>
                     if e = RequestError then
                       (case compute_delay_ms (backoff f1) (loop_time W (nat attempt)) (attempt + 1) of
                          Inl e' \<Rightarrow> Some (Inl e', f1, tr1)
                        | Inr delay \<Rightarrow>
                            retry_loop W (f1\<lparr>proxy_pool := mark_failure pool1 pu\<rparr>) u None
                              (attempt + 1) (tr1 @ [Sleep (delay / 1000)]))
                     else if is_Exception e then Some (Inr (520, ''Unexpected error''), f1, tr1)
                     else Some (Inl e, f1, tr1)))
      else Some (Inr (599, ''Max retries exceeded''), f, tr))"
  by pat_completeness auto
termination
  by (relation "measure (\<lambda>(W, f, u, p, attempt, tr). nat (max_retries f + 1 - attempt))") auto

definition fetch :: "world \<Rightarrow> urllib \<Rightarrow> Fetcher \<Rightarrow> string \<Rightarrow> fetch_result option" where
  "fetch W U f u =
     (case get_domain U u of
        Inl e \<Rightarrow> Some (Inl e, f, [])
      | Inr domain \<Rightarrow>
          let (verdict, rc) = (if respect_robots f then allowed W U (robots f) u
                               else (Inr True, robots f));
              f0 = f\<lparr>robots := rc\<rparr>
          in if verdict = Inr False then Some (Inr (451, ''Blocked by robots.txt''), f0, [])
             else if verdict = Inl BaseOnly then Some (Inl BaseOnly, f0, [])
             else
               let (rl, slept) = wait (rate_limiter f0) domain (wait_t0 W) (wait_t1 W)
               in retry_loop W (f0\<lparr>rate_limiter := rl\<rparr>) u None 0 [RateWait domain])"

definition waits :: "event list \<Rightarrow> nat" where
  "waits tr = length (filter (\<lambda>ev. case ev of RateWait d \<Rightarrow> True | _ \<Rightarrow> False) tr)"

definition attempts :: "event list \<Rightarrow> nat" where
  "attempts tr = length (filter (\<lambda>ev. case ev of HttpGet v p \<Rightarrow> True | _ \<Rightarrow> False) tr)"

definition sleeps :: "event list \<Rightarrow> nat" where
  "sleeps tr = length (filter (\<lambda>ev. case ev of Sleep d \<Rightarrow> True | _ \<Rightarrow> False) tr)"

section \<open>scheduler.py\<close>

text \<open>
  \<^verbatim>\<open>asyncio.Queue\<close> is its items in order and the count of unfinished tasks that
  \<^verbatim>\<open>put_nowait\<close> raises and \<^verbatim>\<open>task_done\<close> lowers; \<^verbatim>\<open>join\<close> returns when the count
  is 0. The queue is unbounded, so \<^verbatim>\<open>put_nowait\<close> does not raise.
\<close>

record Scheduler =
  queue :: "string list"
  unfinished_tasks :: nat
  seen :: "string set"
  allowed_domains :: "string list"

definition put_nowait :: "Scheduler \<Rightarrow> string \<Rightarrow> Scheduler" where
  "put_nowait s v = s\<lparr>queue := queue s @ [v], unfinished_tasks := Suc (unfinished_tasks s)\<rparr>"

definition enqueue :: "urllib \<Rightarrow> Scheduler \<Rightarrow> string \<Rightarrow> exn + Scheduler" where
  "enqueue U s raw =
     (case normalize_url U raw of
        Inl e \<Rightarrow> Inl e
      | Inr v \<Rightarrow>
          (case (if allowed_domains s \<noteq> [] then same_domain U v (allowed_domains s)
                 else Inr True) of
             Inl e \<Rightarrow> Inl e
           | Inr inside \<Rightarrow>
               if \<not> inside then Inr s
               else if v \<in> seen s then Inr s
               else Inr (put_nowait (s\<lparr>seen := insert v (seen s)\<rparr>) v)))"

text \<open>The loop over the seeds in \<^verbatim>\<open>__init__\<close>: the first exception leaves it.\<close>

fun enqueue_seeds :: "urllib \<Rightarrow> Scheduler \<Rightarrow> string list \<Rightarrow> exn + Scheduler" where
  "enqueue_seeds U s [] = Inr s"
| "enqueue_seeds U s (v # vs) =
     (case enqueue U s v of Inl e \<Rightarrow> Inl e | Inr s' \<Rightarrow> enqueue_seeds U s' vs)"

definition Scheduler_init :: "urllib \<Rightarrow> string list \<Rightarrow> string list \<Rightarrow> exn + Scheduler" where
  "Scheduler_init U seeds domains =
     enqueue_seeds U \<lparr>queue = [], unfinished_tasks = 0, seen = {}, allowed_domains = domains\<rparr> seeds"

text \<open>
  A sequence of separate \<^verbatim>\<open>enqueue\<close> calls, as the handlers make them: a call that
  raises leaves the scheduler as it was, and the next call follows.
\<close>

definition enqueue_call :: "urllib \<Rightarrow> Scheduler \<Rightarrow> string \<Rightarrow> Scheduler" where
  "enqueue_call U s raw = (case enqueue U s raw of Inl e \<Rightarrow> s | Inr s' \<Rightarrow> s')"

definition enqueue_calls :: "urllib \<Rightarrow> Scheduler \<Rightarrow> string list \<Rightarrow> Scheduler" where
  "enqueue_calls U s raws = foldl (enqueue_call U) s raws"

subsection \<open>run\<close>

text \<open>
  The injected handler, seen from the scheduler: the URLs it passes to
  \<^verbatim>\<open>enqueue\<close> while it runs, and whether it returns (\<open>None\<close>) or raises.
\<close>

record handler_result =
  discovered :: "string list"
  raised :: "exn option"

text \<open>
  A worker task is suspended in \<^verbatim>\<open>queue.get()\<close> (\<open>Idle\<close>), inside the handler of a
  URL with the \<^verbatim>\<open>enqueue\<close> calls it has still to make (\<open>Busy\<close>), finished by an
  exception that left its loop (\<open>Dead\<close>), or cancelled.
\<close>

datatype worker = Idle | Busy string "string list" | Dead exn | Cancelled

record pool =
  sched :: Scheduler
  workers :: "worker list"
  errlog :: "(nat \<times> string \<times> exn) list"

text \<open>
  \<^verbatim>\<open>task_done\<close> in the \<^verbatim>\<open>finally\<close> clause: it raises \<^verbatim>\<open>ValueError\<close> when no task is
  unfinished.
\<close>

definition task_done :: "Scheduler \<Rightarrow> exn + Scheduler" where
  "task_done s =
     (if unfinished_tasks s = 0 then Inl ValueError
      else Inr (s\<lparr>unfinished_tasks := unfinished_tasks s - 1\<rparr>))"

text \<open>
  The end of one handler call in \<^verbatim>\<open>_worker_task\<close>: \<^verbatim>\<open>except Exception\<close> logs,
  \<^verbatim>\<open>finally\<close> marks the item done, and the loop goes on unless an exception is
  still in flight.
\<close>

definition finish_item :: "pool \<Rightarrow> nat \<Rightarrow> string \<Rightarrow> exn option \<Rightarrow> pool" where
  "finish_item st i v r =
     (let (lg, inflight) =
            (case r of
               None \<Rightarrow> (errlog st, None)
             | Some e \<Rightarrow> if is_Exception e then (errlog st @ [(i, v, e)], None)
                         else (errlog st, Some e))
      in case task_done (sched st) of
           Inl e' \<Rightarrow> st\<lparr>workers := (workers st)[i := Dead e'], errlog := lg\<rparr>
         | Inr s' \<Rightarrow>
             st\<lparr>sched := s',
                workers := (workers st)[i := (case inflight of None \<Rightarrow> Idle | Some e \<Rightarrow> Dead e)],
                errlog := lg\<rparr>)"

text \<open>
  One turn of worker \<open>i\<close> on the event loop: it takes the next URL, or its handler
  makes its next \<^verbatim>\<open>enqueue\<close> call, or its handler ends. A worker with nothing to
  take stays suspended.
\<close>

definition worker_turn :: "urllib \<Rightarrow> (string \<Rightarrow> handler_result) \<Rightarrow> pool \<Rightarrow> nat \<Rightarrow> pool" where
  "worker_turn U handler st i =
     (if length (workers st) \<le> i then st
      else
        (case workers st ! i of
           Idle \<Rightarrow>
             (case queue (sched st) of
                [] \<Rightarrow> st
              | v # rest \<Rightarrow>
                  st\<lparr>sched := (sched st)\<lparr>queue := rest\<rparr>,
                     workers := (workers st)[i := Busy v (discovered (handler v))]\<rparr>)
         | Busy v todo \<Rightarrow>
             (case todo of
                [] \<Rightarrow> finish_item st i v (raised (handler v))
              | d # ds \<Rightarrow>
                  st\<lparr>sched := enqueue_call U (sched st) d,
                     workers := (workers st)[i := Busy v ds]\<rparr>)
         | Dead e \<Rightarrow> st
         | Cancelled \<Rightarrow> st))"

definition worker_turns ::
  "urllib \<Rightarrow> (string \<Rightarrow> handler_result) \<Rightarrow> pool \<Rightarrow> nat list \<Rightarrow> pool" where
  "worker_turns U handler st turns = foldl (worker_turn U handler) st turns"

text \<open>
  \<^verbatim>\<open>run\<close> after the tasks are created: \<^verbatim>\<open>queue.join()\<close> returns as soon as no task
  is unfinished, and the worker tasks are cancelled. \<open>turns\<close> is the order in which
  the event loop resumes the workers; \<open>None\<close> is a \<^verbatim>\<open>run\<close> still suspended in
  \<^verbatim>\<open>join\<close> when the turns are used up.
\<close>

fun run_loop ::
  "urllib \<Rightarrow> (string \<Rightarrow> handler_result) \<Rightarrow> pool \<Rightarrow> nat list \<Rightarrow> pool option" where
  "run_loop U handler st turns =
     (if unfinished_tasks (sched st) = 0
      then Some (st\<lparr>workers := map (\<lambda>w. Cancelled) (workers st)\<rparr>)
      else (case turns of
              [] \<Rightarrow> None
            | i # rest \<Rightarrow> run_loop U handler (worker_turn U handler st i) rest))"

definition run ::
  "urllib \<Rightarrow> (string \<Rightarrow> handler_result) \<Rightarrow> Scheduler \<Rightarrow> int \<Rightarrow> nat list \<Rightarrow> pool option" where
  "run U handler s concurrency turns =
     run_loop U handler \<lparr>sched = s, workers = replicate (nat concurrency) Idle, errlog = []\<rparr> turns"

section \<open>Predicates of the statements\<close>

text \<open>The test of \<^verbatim>\<open>next\<close>: the proxy is below the failure threshold.\<close>

definition eligible :: "ProxyPool \<Rightarrow> string \<Rightarrow> bool" where
  "eligible pool q = (get_count pool q < fail_threshold pool)"


definition pool_ok :: "ProxyPool \<Rightarrow> bool" where
  "pool_ok pool =
     ((proxies pool = [] \<or> idx pool < length (proxies pool)) \<and>
      (\<forall>q. 0 \<le> get_count pool q))"

text \<open>A URL is in scope of a list of domains when \<^verbatim>\<open>same_domain\<close> answers true.\<close>

definition in_scope :: "urllib \<Rightarrow> string list \<Rightarrow> string \<Rightarrow> bool" where
  "in_scope U domains v = (same_domain U v domains = Inr True)"

definition scoped :: "urllib \<Rightarrow> Scheduler \<Rightarrow> bool" where
  "scoped U s = (\<forall>v \<in> seen s \<union> set (queue s). in_scope U (allowed_domains s) v)"

text \<open>The state of a pool of workers: who runs a handler, who is still in its loop.\<close>

definition is_busy :: "worker \<Rightarrow> bool" where
  "is_busy w = (case w of Busy v todo \<Rightarrow> True | _ \<Rightarrow> False)"

definition alive :: "worker \<Rightarrow> bool" where
  "alive w = (case w of Idle \<Rightarrow> True | Busy v todo \<Rightarrow> True | _ \<Rightarrow> False)"

definition busy_count :: "worker list \<Rightarrow> nat" where
  "busy_count ws = length (filter is_busy ws)"

text \<open>Every unfinished task is in the queue or in the hands of a worker, and every worker is in its loop.\<close>

definition pool_inv :: "pool \<Rightarrow> bool" where
  "pool_inv st =
     (unfinished_tasks (sched st) = length (queue (sched st)) + busy_count (workers st) \<and>
      list_all alive (workers st))"

section \<open>Concrete inputs\<close>

text \<open>The download of robots.txt raises (the host cannot be reached).\<close>

definition world_robots_unreachable :: world where
  "world_robots_unreachable =
     \<lparr>robots_read = (\<lambda>rp. Inl OtherException),
      http_get = (\<lambda>v p k. Response 200 ''ok''),
      loop_time = (\<lambda>k. 0), wait_t0 = 0, wait_t1 = 0\<rparr>"

text \<open>The download of robots.txt is answered 403: \<^verbatim>\<open>read\<close> sets \<^verbatim>\<open>disallow_all\<close>.\<close>

definition world_robots_forbidden :: world where
  "world_robots_forbidden =
     \<lparr>robots_read = (\<lambda>rp. Inr (rp\<lparr>disallow_all := True\<rparr>)),
      http_get = (\<lambda>v p k. Response 200 ''ok''),
      loop_time = (\<lambda>k. 0), wait_t0 = 0, wait_t1 = 0\<rparr>"


text \<open>The first GET is answered 503, the later ones 200.\<close>

definition world_503_then_200 :: world where
  "world_503_then_200 =
     \<lparr>robots_read = (\<lambda>rp. Inr (rp\<lparr>allow_all := True\<rparr>)),
      http_get = (\<lambda>v p k. if k = 0 then Response 503 [] else Response 200 ''ok''),
      loop_time = (\<lambda>k. 0), wait_t0 = 5, wait_t1 = 5\<rparr>"

text \<open>Every request is answered 503, robots.txt too: \<^verbatim>\<open>read\<close> swallows the error and reads nothing.\<close>

definition world_host_503 :: world where
  "world_host_503 =
     \<lparr>robots_read = (\<lambda>rp. Inr rp),
      http_get = (\<lambda>v p k. Response 503 []),
      loop_time = (\<lambda>k. 0), wait_t0 = 0, wait_t1 = 0\<rparr>"

text \<open>A handler that finds one link on the first page and then raises; the other pages are fine.\<close>

definition handler_one_bad :: "string \<Rightarrow> handler_result" where
  "handler_one_bad v =
     (if v = ''http://a.example/x''
      then \<lparr>discovered = [''http://a.example/z''], raised = Some OtherException\<rparr>
      else \<lparr>discovered = [], raised = None\<rparr>)"

text \<open>A handler that leaves the first page with an exception outside \<^verbatim>\<open>Exception\<close>.\<close>

definition handler_base_exit :: "string \<Rightarrow> handler_result" where
  "handler_base_exit v =
     (if v = ''http://a.example/x''
      then \<lparr>discovered = [], raised = Some BaseOnly\<rparr>
      else \<lparr>discovered = [], raised = None\<rparr>)"

declare retry_loop.simps [simp del]

section \<open>Unfolding the definitions on concrete inputs\<close>

lemmas pool_eval = pool_calls_def pool_step_def mark_failure_def mark_success_def
  ProxyPool_init_def get_count_def next_proxy_def Let_def

lemmas url_eval = generic_urllib_def urlparse_generic_def urlunparse_generic_def
  get_domain_def normalize_url_def same_domain_def lower_def lower_char_def endswith_def Let_def

lemmas robots_eval = allowed_def load_robots_def robots_url_def set_url_def can_fetch_def
  RobotFileParser_new_def is_Exception_def

lemmas fetch_eval = fetch_def retry_loop.simps Fetcher_init_def wait_def truthy_def retryable_def
  compute_delay_ms_def backoff_base_def float_mod_def attempts_def sleeps_def waits_def

lemmas run_eval = worker_turns_def worker_turn_def finish_item_def task_done_def
  enqueue_call_def enqueue_def put_nowait_def Scheduler_init_def handler_one_bad_def
  is_Exception_def is_busy_def

section \<open>RobotsCache: a failed read\<close>

lemma allowed_after_failed_read:
  assumes "urlparse U u = Inr p"
      and "netloc p \<notin> dom (cache rc)"
      and "urlparse U (scheme p @ ''://'' @ netloc p @ ''/robots.txt'') = Inr q"
      and "robots_read W (RobotFileParser_new\<lparr>rp_url := scheme p @ ''://'' @ netloc p @ ''/robots.txt'',
              rp_host := netloc q, rp_path := path q\<rparr>) = Inl e"
      and "is_Exception e"
  shows "allowed W U rc u
           = (Inr False, rc\<lparr>cache := (cache rc)(netloc p \<mapsto> RobotFileParser_new)\<rparr>)"
  using assms
  by (simp add: allowed_def load_robots_def robots_url_def set_url_def can_fetch_def Let_def)
     (simp add: RobotFileParser_new_def)

text \<open>
  C1. The claim: when the download or the parse of a host's robots.txt fails,
  \<^verbatim>\<open>allowed\<close> answers true, and \<^verbatim>\<open>allowed\<close> never raises. The code does not do
  that. When \<^verbatim>\<open>read\<close> raises, the cache receives a new parser; nothing was read into
  it, so its \<^verbatim>\<open>can_fetch\<close> answers false: on the first query for a host whose
  robots.txt cannot be downloaded, \<^verbatim>\<open>allowed\<close> returns false. And a URL that
  \<^verbatim>\<open>urlparse\<close> rejects makes \<^verbatim>\<open>allowed\<close> raise \<^verbatim>\<open>ValueError\<close>, because that call is
  outside both \<^verbatim>\<open>try\<close> blocks.
\<close>

theorem C1_read_failure_denies:
  "fst (allowed world_robots_unreachable generic_urllib
          \<lparr>user_agent = ''*'', cache = Map.empty\<rparr> ''http://down.example/page'') = Inr False \<and>
   fst (allowed world_robots_unreachable generic_urllib
          \<lparr>user_agent = ''*'', cache = Map.empty\<rparr> ''http://[down/page'') = Inl ValueError"
  by (simp add: robots_eval url_eval world_robots_unreachable_def)

section \<open>BackoffStrategy: the delay and its failure\<close>












section \<open>ProxyPool: round robin and circuit breaking\<close>

lemma cycle_index:
  assumes "i < n" "start < n"
  shows "\<exists>j<n. (start + j) mod n = (i::nat)"
proof (cases "start \<le> i")
  case True
  then have "(start + (i - start)) mod n = i" using assms by simp
  moreover have "i - start < n" using assms by simp
  ultimately show ?thesis by blast
next
  case False
  then have "(start + (i + n - start)) mod n = i" using assms by simp
  moreover have "i + n - start < n" using assms False by simp
  ultimately show ?thesis by blast
qed

lemma next_loop_scan:
  assumes "start < length (proxies pool)"
      and "k < length (proxies pool)"
      and "idx pool = (start + k) mod length (proxies pool)"
      and "\<forall>j<k. \<not> eligible pool (proxies pool ! ((start + j) mod length (proxies pool)))"
  shows "\<exists>r i. next_loop pool start = Some (Inr (r, pool\<lparr>idx := i\<rparr>)) \<and> i < length (proxies pool) \<and>
           (case r of
              Some q \<Rightarrow> q \<in> set (proxies pool) \<and> eligible pool q
            | None \<Rightarrow> i = start \<and> (\<forall>q \<in> set (proxies pool). \<not> eligible pool q))"
  using assms
proof (induction "length (proxies pool) - k" arbitrary: k pool)
  case 0
  then show ?case by simp
next
  case (Suc m)
  let ?n = "length (proxies pool)"
  let ?q = "proxies pool ! idx pool"
  let ?pool' = "pool\<lparr>idx := (idx pool + 1) mod ?n\<rparr>"
  have n0: "0 < ?n" using Suc.prems(1) by (cases "proxies pool") simp_all
  have idx_lt: "idx pool < ?n" using Suc.prems n0 by simp
  have idx': "(idx pool + 1) mod ?n = (start + Suc k) mod ?n"
    using Suc.prems(3) by (simp add: mod_Suc_eq)
  show ?case
  proof (cases "eligible pool ?q")
    case True
    have "next_loop pool start = Some (Inr (Some ?q, ?pool'))"
      using True idx_lt by (subst next_loop.simps) (simp add: eligible_def get_count_def Let_def)
    moreover have "?q \<in> set (proxies pool)" using idx_lt by simp
    moreover have "(idx pool + 1) mod ?n < ?n" using n0 by simp
    ultimately show ?thesis using True by force
  next
    case False
    have inel: "\<forall>j<Suc k. \<not> eligible pool (proxies pool ! ((start + j) mod ?n))"
      using Suc.prems(4) False Suc.prems(3) by (auto simp: less_Suc_eq)
    show ?thesis
    proof (cases "Suc k = ?n")
      case True
      have wrapped: "(idx pool + 1) mod ?n = start"
        using idx' True Suc.prems(1) by simp
      have all: "\<forall>q \<in> set (proxies pool). \<not> eligible pool q"
      proof
        fix q assume "q \<in> set (proxies pool)"
        then obtain i where i: "i < ?n" "proxies pool ! i = q" by (auto simp: in_set_conv_nth)
        obtain j where "j < ?n" "(start + j) mod ?n = i"
          using cycle_index[OF i(1) Suc.prems(1)] by blast
        then show "\<not> eligible pool q" using inel True i(2) by auto
      qed
      have "next_loop pool start = Some (Inr (None, pool\<lparr>idx := start\<rparr>))"
        using False idx_lt wrapped
        by (subst next_loop.simps) (simp add: eligible_def get_count_def Let_def)
      then show ?thesis using all Suc.prems(1) by force
    next
      case neq: False
      then have k': "Suc k < ?n" using Suc.prems(2) by simp
      have notback: "(idx pool + 1) mod ?n \<noteq> start"
      proof
        assume a: "(idx pool + 1) mod ?n = start"
        have "(start + Suc k) mod ?n =
                (if start + Suc k < ?n then start + Suc k else start + Suc k - ?n)"
          using k' Suc.prems(1) by (simp add: mod_if)
        then show False using a idx' k' by (auto split: if_splits)
      qed
      have step: "next_loop pool start = next_loop ?pool' start"
        using False idx_lt notback
        by (subst next_loop.simps) (simp add: eligible_def get_count_def Let_def)
      have "\<exists>r i. next_loop ?pool' start = Some (Inr (r, ?pool'\<lparr>idx := i\<rparr>)) \<and> i < length (proxies ?pool') \<and>
           (case r of
              Some q \<Rightarrow> q \<in> set (proxies ?pool') \<and> eligible ?pool' q
            | None \<Rightarrow> i = start \<and> (\<forall>q \<in> set (proxies ?pool'). \<not> eligible ?pool' q))"
      proof (rule Suc.hyps(1))
        show "m = length (proxies ?pool') - Suc k" using Suc.hyps(2) by simp
        show "start < length (proxies ?pool')" using Suc.prems(1) by simp
        show "Suc k < length (proxies ?pool')" using k' by simp
        show "idx ?pool' = (start + Suc k) mod length (proxies ?pool')" using idx' by simp
        show "\<forall>j<Suc k. \<not> eligible ?pool' (proxies ?pool' ! ((start + j) mod length (proxies ?pool')))"
          using inel by (simp add: eligible_def get_count_def)
      qed
      then obtain r i where ri: "next_loop ?pool' start = Some (Inr (r, ?pool'\<lparr>idx := i\<rparr>))"
          "i < length (proxies ?pool')"
          "(case r of
              Some q \<Rightarrow> q \<in> set (proxies ?pool') \<and> eligible ?pool' q
            | None \<Rightarrow> i = start \<and> (\<forall>q \<in> set (proxies ?pool'). \<not> eligible ?pool' q))"
        by blast
      have "next_loop pool start = Some (Inr (r, pool\<lparr>idx := i\<rparr>))"
        using step ri(1) by simp
      moreover have "i < ?n" using ri(2) by simp
      moreover have "(case r of
              Some q \<Rightarrow> q \<in> set (proxies pool) \<and> eligible pool q
            | None \<Rightarrow> i = start \<and> (\<forall>q \<in> set (proxies pool). \<not> eligible pool q))"
        using ri(3) by (cases r) (simp_all add: eligible_def get_count_def)
      ultimately show ?thesis by blast
    qed
  qed
qed

lemma next_proxy_spec:
  assumes "proxies pool = [] \<or> idx pool < length (proxies pool)"
  shows "\<exists>r i. next_proxy pool = Some (Inr (r, pool\<lparr>idx := i\<rparr>)) \<and>
           (proxies pool = [] \<or> i < length (proxies pool)) \<and>
           (case r of
              Some q \<Rightarrow> q \<in> set (proxies pool) \<and> eligible pool q
            | None \<Rightarrow> i = idx pool \<and> (\<forall>q \<in> set (proxies pool). \<not> eligible pool q))"
proof (cases "proxies pool = []")
  case True
  then have "next_proxy pool = Some (Inr (None, pool\<lparr>idx := idx pool\<rparr>))"
    by (simp add: next_proxy_def)
  then show ?thesis using True by force
next
  case False
  then have lt: "idx pool < length (proxies pool)" using assms by simp
  have "\<exists>r i. next_loop pool (idx pool) = Some (Inr (r, pool\<lparr>idx := i\<rparr>)) \<and>
           i < length (proxies pool) \<and>
           (case r of
              Some q \<Rightarrow> q \<in> set (proxies pool) \<and> eligible pool q
            | None \<Rightarrow> i = idx pool \<and> (\<forall>q \<in> set (proxies pool). \<not> eligible pool q))"
  proof (rule next_loop_scan[where k = 0])
    show "idx pool < length (proxies pool)" by (rule lt)
    show "0 < length (proxies pool)" using False by simp
    show "idx pool = (idx pool + 0) mod length (proxies pool)" using lt by simp
    show "\<forall>j<0. \<not> eligible pool (proxies pool ! ((idx pool + j) mod length (proxies pool)))"
      by simp
  qed
  then show ?thesis using False by (auto simp: next_proxy_def)
qed

lemma pool_step_frame:
  "proxies (pool_step pool c) = proxies pool \<and> fail_threshold (pool_step pool c) = fail_threshold pool"
proof (cases c)
  case Next
  show ?thesis
  proof (cases "next_proxy pool")
    case None
    then show ?thesis using Next by (simp add: pool_step_def)
  next
    case (Some a)
    show ?thesis
    proof (cases "proxies pool = []")
      case True
      then show ?thesis using Next by (simp add: pool_step_def next_proxy_def)
    next
      case False
      show ?thesis
      proof (cases "idx pool < length (proxies pool)")
        case True
        then obtain r i where "next_proxy pool = Some (Inr (r, pool\<lparr>idx := i\<rparr>))"
          using next_proxy_spec[of pool] by blast
        then show ?thesis using Next by (simp add: pool_step_def)
      next
        case False
        then have "next_proxy pool = Some (Inl IndexError)"
          using \<open>proxies pool \<noteq> []\<close>
          by (simp add: next_proxy_def next_loop.simps)
        then show ?thesis using Next by (simp add: pool_step_def)
      qed
    qed
  qed
next
  case (MarkFailure p)
  then show ?thesis by (simp add: pool_step_def mark_failure_def split: option.splits)
next
  case (MarkSuccess p)
  then show ?thesis by (simp add: pool_step_def mark_success_def split: option.splits)
qed

lemma pool_step_ok:
  assumes "pool_ok pool"
  shows "pool_ok (pool_step pool c)"
proof (cases c)
  case Next
  obtain r i where ri: "next_proxy pool = Some (Inr (r, pool\<lparr>idx := i\<rparr>))"
      "proxies pool = [] \<or> i < length (proxies pool)"
    using next_proxy_spec[of pool] assms by (auto simp: pool_ok_def)
  then show ?thesis using Next assms by (simp add: pool_step_def pool_ok_def get_count_def)
next
  case (MarkFailure p)
  then show ?thesis using assms
    by (auto simp: pool_step_def mark_failure_def pool_ok_def get_count_def split: option.splits)
next
  case (MarkSuccess p)
  then show ?thesis using assms
    by (auto simp: pool_step_def mark_success_def pool_ok_def get_count_def split: option.splits)
qed

lemma pool_step_count:
  assumes "p \<noteq> []" "c \<noteq> MarkSuccess (Some p)" "pool_ok pool"
  shows "get_count (pool_step pool c) p =
           get_count pool p + (if c = MarkFailure (Some p) then 1 else 0)"
proof (cases c)
  case Next
  obtain r i where ri: "next_proxy pool = Some (Inr (r, pool\<lparr>idx := i\<rparr>))"
    using next_proxy_spec[of pool] assms(3) by (auto simp: pool_ok_def)
  then show ?thesis using Next by (simp add: pool_step_def get_count_def)
next
  case (MarkFailure q)
  then show ?thesis using assms(1)
    by (auto simp: pool_step_def mark_failure_def get_count_def split: option.splits)
next
  case (MarkSuccess q)
  then show ?thesis using assms(1,2)
    by (auto simp: pool_step_def mark_success_def get_count_def split: option.splits)
qed

lemma pool_calls_ok: "pool_ok pool \<Longrightarrow> pool_ok (pool_calls pool cs)"
  unfolding pool_calls_def
  by (induction cs arbitrary: pool) (simp_all add: pool_step_ok)

lemma pool_calls_frame:
  "proxies (pool_calls pool cs) = proxies pool \<and>
   fail_threshold (pool_calls pool cs) = fail_threshold pool"
  unfolding pool_calls_def
  by (induction cs arbitrary: pool) (simp_all add: pool_step_frame)

lemma pool_calls_count:
  assumes "p \<noteq> []" "MarkSuccess (Some p) \<notin> set cs" "pool_ok pool"
  shows "get_count (pool_calls pool cs) p =
           get_count pool p + int (count_list cs (MarkFailure (Some p)))"
  using assms unfolding pool_calls_def
proof (induction cs arbitrary: pool)
  case Nil
  then show ?case by simp
next
  case (Cons c cs)
  have "get_count (foldl pool_step (pool_step pool c) cs) p =
          get_count (pool_step pool c) p + int (count_list cs (MarkFailure (Some p)))"
    using Cons.IH[of "pool_step pool c"] Cons.prems pool_step_ok by simp
  moreover have "get_count (pool_step pool c) p =
           get_count pool p + (if c = MarkFailure (Some p) then 1 else 0)"
    using pool_step_count[of p c pool] Cons.prems by auto
  ultimately show ?case by simp
qed

lemma ProxyPool_init_ok: "pool_ok (ProxyPool_init ps thr)"
proof -
  have "\<And>q c. map_of (map (\<lambda>p. (p, 0::int)) ps) q = Some c \<Longrightarrow> c = 0"
    by (induction ps) (auto split: if_splits)
  then show ?thesis
    by (auto simp: pool_ok_def ProxyPool_init_def get_count_def split: option.splits)
qed

lemma pool_calls_append: "pool_calls pool (cs1 @ cs2) = pool_calls (pool_calls pool cs1) cs2"
  by (simp add: pool_calls_def)

text \<open>
  C6, as stated, fails for a proxy whose identifier is the empty string:
  \<^verbatim>\<open>mark_failure\<close> returns at once on it, its count stays 0, and \<^verbatim>\<open>next\<close> returns it
  after three failures, although another proxy is below the threshold.
\<close>

theorem C6_empty_name_counterexample:
  "map_option (map_sum id fst)
     (next_proxy (pool_calls (ProxyPool_init ['''', ''b''] 3)
        [MarkFailure (Some ''''), MarkFailure (Some ''''), MarkFailure (Some '''')]))
   = Some (Inr (Some ''''))"
  by (simp add: pool_eval next_loop.simps)

text \<open>
  C6, amended. In a pool built by the constructor and used through any calls,
  \<^verbatim>\<open>next\<close> returns: it never runs forever. It does not return a proxy with a
  non-empty identifier on which \<^verbatim>\<open>mark_failure\<close> was called at least
  \<^verbatim>\<open>fail_threshold\<close> times since its last \<^verbatim>\<open>mark_success\<close>; it returns some proxy
  while one of the pool is below the threshold; and it returns none, with the pool
  unchanged, when no proxy is below the threshold or the pool is empty.
\<close>

theorem C6_tripped_proxy_skipped:
  assumes "pool = pool_calls (ProxyPool_init ps thr) cs"
  shows "\<exists>r pool'. next_proxy pool = Some (Inr (r, pool')) \<and>
           (\<forall>p cs1 cs2. p \<noteq> [] \<and> cs = cs1 @ cs2 \<and> MarkSuccess (Some p) \<notin> set cs2 \<and>
                        thr \<le> int (count_list cs2 (MarkFailure (Some p)))
                        \<longrightarrow> r \<noteq> Some p) \<and>
           ((\<exists>q \<in> set ps. get_count pool q < thr) \<longrightarrow> r \<noteq> None) \<and>
           ((\<forall>q \<in> set ps. thr \<le> get_count pool q) \<longrightarrow> r = None \<and> pool' = pool) \<and>
           (ps = [] \<longrightarrow> r = None)"
proof -
  have ok: "pool_ok pool" using assms pool_calls_ok ProxyPool_init_ok by simp
  have fr: "proxies pool = ps" "fail_threshold pool = thr"
    using assms pool_calls_frame by (simp_all add: ProxyPool_init_def)
  obtain r i where ri: "next_proxy pool = Some (Inr (r, pool\<lparr>idx := i\<rparr>))"
      "case r of
         Some q \<Rightarrow> q \<in> set (proxies pool) \<and> eligible pool q
       | None \<Rightarrow> i = idx pool \<and> (\<forall>q \<in> set (proxies pool). \<not> eligible pool q)"
    using next_proxy_spec[of pool] ok by (auto simp: pool_ok_def)
  have a: "r \<noteq> Some p"
    if h: "p \<noteq> [] \<and> cs = cs1 @ cs2 \<and> MarkSuccess (Some p) \<notin> set cs2 \<and>
           thr \<le> int (count_list cs2 (MarkFailure (Some p)))" for p cs1 cs2
  proof -
    let ?mid = "pool_calls (ProxyPool_init ps thr) cs1"
    have okm: "pool_ok ?mid" using pool_calls_ok ProxyPool_init_ok by simp
    have "pool = pool_calls ?mid cs2" using assms h pool_calls_append by simp
    then have "get_count pool p = get_count ?mid p + int (count_list cs2 (MarkFailure (Some p)))"
      using pool_calls_count[of p cs2 ?mid] h okm by simp
    moreover have "0 \<le> get_count ?mid p" using okm by (simp add: pool_ok_def)
    ultimately have "\<not> eligible pool p" using h fr by (simp add: eligible_def)
    then show ?thesis using ri(2) by auto
  qed
  have b: "(\<exists>q \<in> set ps. get_count pool q < thr) \<longrightarrow> r \<noteq> None"
    using ri(2) fr by (cases r) (auto simp: eligible_def)
  have c: "(\<forall>q \<in> set ps. thr \<le> get_count pool q) \<longrightarrow> r = None \<and> pool\<lparr>idx := i\<rparr> = pool"
    using ri(2) fr by (cases r) (auto simp: eligible_def not_le)
  have d: "ps = [] \<longrightarrow> r = None"
    using ri(2) fr by (cases r) auto
  show ?thesis using ri(1) a b c d by blast
qed

text \<open>A pool with one tripped proxy, and a pool with every proxy tripped.\<close>

theorem C6_tripped_proxy_skipped_witness:
  "(\<exists>r pool'. next_proxy (pool_calls (ProxyPool_init [''a'', ''b''] 3)
        [Next, MarkFailure (Some ''a''), Next, MarkFailure (Some ''a''), MarkFailure (Some ''a'')])
      = Some (Inr (r, pool')) \<and> r \<noteq> Some ''a'' \<and> r \<noteq> None) \<and>
   (\<exists>r pool'. next_proxy (pool_calls (ProxyPool_init [''a'', ''b''] 1)
        [MarkFailure (Some ''a''), MarkFailure (Some ''b'')])
      = Some (Inr (r, pool')) \<and> r = None)"
proof -
  let ?cs = "[Next, MarkFailure (Some ''a''), Next, MarkFailure (Some ''a''), MarkFailure (Some ''a'')]"
  let ?pool = "pool_calls (ProxyPool_init [''a'', ''b''] 3) ?cs"
  let ?cs2 = "[MarkFailure (Some ''a''), Next, MarkFailure (Some ''a''), MarkFailure (Some ''a'')]"
  let ?dead = "pool_calls (ProxyPool_init [''a'', ''b''] 1)
                 [MarkFailure (Some ''a''), MarkFailure (Some ''b'')]"
  have h: "''a'' \<noteq> [] \<and> ?cs = [Next] @ ?cs2 \<and> MarkSuccess (Some ''a'') \<notin> set ?cs2 \<and>
           3 \<le> int (count_list ?cs2 (MarkFailure (Some ''a'')))"
    by simp
  have b: "\<exists>q \<in> set [''a'', ''b'']. get_count ?pool q < 3"
    by (simp add: pool_eval next_loop.simps)
  have t: "\<forall>q \<in> set [''a'', ''b'']. 1 \<le> get_count ?dead q"
    by (simp add: pool_eval)
  from C6_tripped_proxy_skipped[OF refl, of "[''a'', ''b'']" 3 ?cs] h b
  have one: "\<exists>r pool'. next_proxy ?pool = Some (Inr (r, pool')) \<and> r \<noteq> Some ''a'' \<and> r \<noteq> None"
    by blast
  from C6_tripped_proxy_skipped[OF refl, of "[''a'', ''b'']" 1
         "[MarkFailure (Some ''a''), MarkFailure (Some ''b'')]"] t
  have two: "\<exists>r pool'. next_proxy ?dead = Some (Inr (r, pool')) \<and> r = None"
    by blast
  show ?thesis using one two by blast
qed

section \<open>Fetcher: the robots check, the rate limiter and the retry loop\<close>

text \<open>
  C7. If robots compliance is enabled and \<^verbatim>\<open>allowed\<close> answers false, \<^verbatim>\<open>fetch\<close> returns
  the status 451 at once: no call of the rate limiter, no network attempt for the
  page, and the rate limiter and the proxy pool are as before.
\<close>

theorem C7_blocked_without_wait_or_request:
  assumes "respect_robots f"
      and "allowed W U (robots f) u = (Inr False, rc)"
  shows "\<exists>f' tr. fetch W U f u = Some (Inr (451, ''Blocked by robots.txt''), f', tr) \<and>
           tr = [] \<and> waits tr = 0 \<and> attempts tr = 0 \<and>
           rate_limiter f' = rate_limiter f \<and> proxy_pool f' = proxy_pool f"
proof -
  obtain p where "urlparse U u = Inr p"
    using assms(2) by (cases "urlparse U u") (auto simp: allowed_def)
  then have "get_domain U u = Inr (netloc p)" by (simp add: get_domain_def)
  then have "fetch W U f u = Some (Inr (451, ''Blocked by robots.txt''), f\<lparr>robots := rc\<rparr>, [])"
    using assms by (simp add: fetch_def)
  then show ?thesis by (simp add: waits_def attempts_def)
qed

text \<open>A host whose robots.txt is forbidden to the crawler, so that all is disallowed.\<close>

theorem C7_blocked_without_wait_or_request_witness:
  "respect_robots (Fetcher_init [] 800 3 500 8000 True) \<and>
   fst (allowed world_robots_forbidden generic_urllib
         (robots (Fetcher_init [] 800 3 500 8000 True)) ''http://a.example/private'') = Inr False \<and>
   (\<exists>f' tr. fetch world_robots_forbidden generic_urllib (Fetcher_init [] 800 3 500 8000 True)
               ''http://a.example/private''
             = Some (Inr (451, ''Blocked by robots.txt''), f', tr) \<and> waits tr = 0 \<and> attempts tr = 0)"
proof -
  let ?f = "Fetcher_init [] 800 3 500 8000 True"
  let ?a = "allowed world_robots_forbidden generic_urllib (robots ?f) ''http://a.example/private''"
  have h1: "respect_robots ?f" by (simp add: Fetcher_init_def)
  have v: "fst ?a = Inr False"
    by (simp add: robots_eval url_eval world_robots_forbidden_def Fetcher_init_def)
  then have h2: "?a = (Inr False, snd ?a)" by (metis prod.collapse)
  from C7_blocked_without_wait_or_request[OF h1 h2] show ?thesis using h1 v by blast
qed

lemma waits_append: "waits (xs @ ys) = waits xs + waits ys"
  by (simp add: waits_def)

lemma attempts_append: "attempts (xs @ ys) = attempts xs + attempts ys"
  by (simp add: attempts_def)

lemma sleeps_append: "sleeps (xs @ ys) = sleeps xs + sleeps ys"
  by (simp add: sleeps_def)

lemma retry_loop_trace:
  "retry_loop W f u pu attempt tr = Some (r, f', tr') \<Longrightarrow>
     (\<exists>ext. tr' = tr @ ext \<and> waits ext = 0) \<and> rate_limiter f' = rate_limiter f"
proof (induction W f u pu attempt tr rule: retry_loop.induct)
  case (1 W f u pu attempt tr)
  show ?case
  proof (cases "attempt \<le> max_retries f")
    case False
    then show ?thesis using "1.prems" by (auto simp: retry_loop.simps waits_def)
  next
    case True
    let ?nx = "if truthy pu then Some (Inr (pu, proxy_pool f)) else next_proxy (proxy_pool f)"
    show ?thesis
    proof (cases ?nx)
      case None
      then show ?thesis using "1.prems" True by (simp add: retry_loop.simps split: if_splits)
    next
      case (Some a)
      show ?thesis
      proof (cases a)
        case (Inl e)
        then show ?thesis using "1.prems" True Some by (auto simp: retry_loop.simps waits_def split: if_splits)
      next
        case (Inr b)
        obtain pu1 pool1 where b: "b = (pu1, pool1)" by (cases b)
        let ?f1 = "f\<lparr>proxy_pool := pool1\<rparr>"
        let ?tr1 = "tr @ [HttpGet u pu1]"
        let ?f2 = "?f1\<lparr>proxy_pool := mark_failure pool1 pu1\<rparr>"
        have nx: "?nx = Some (Inr (pu1, pool1))" using Some Inr b by simp
        have w1: "waits [HttpGet u pu1] = 0" by (simp add: waits_def)
        have rec: "(\<exists>ext. tr' = tr @ ext \<and> waits ext = 0) \<and> rate_limiter f' = rate_limiter f"
          if "retry_loop W ?f2 u None (attempt + 1) (?tr1 @ [Sleep (dl / 1000)]) = Some (r, f', tr')"
            and ih: "retry_loop W ?f2 u None (attempt + 1) (?tr1 @ [Sleep (dl / 1000)]) = Some (r, f', tr')
               \<Longrightarrow> (\<exists>ext. tr' = (?tr1 @ [Sleep (dl / 1000)]) @ ext \<and> waits ext = 0) \<and>
                   rate_limiter f' = rate_limiter ?f2"
          for dl
        proof -
          from ih[OF that(1)]
          obtain ext where "tr' = (?tr1 @ [Sleep (dl / 1000)]) @ ext" "waits ext = 0"
              "rate_limiter f' = rate_limiter ?f2"
            by blast
          then have "tr' = tr @ ([HttpGet u pu1, Sleep (dl / 1000)] @ ext)"
              "waits ([HttpGet u pu1, Sleep (dl / 1000)] @ ext) = 0" "rate_limiter f' = rate_limiter f"
            by (simp_all add: waits_def)
          then show ?thesis by blast
        qed
        show ?thesis
        proof (cases "http_get W u pu1 (nat attempt)")
          case (Response status body)
          show ?thesis
          proof (cases "retryable status")
            case rt: True
            show ?thesis
            proof (cases "compute_delay_ms (backoff ?f1) (loop_time W (nat attempt)) (attempt + 1)")
              case (Inl e)
              then have "tr' = tr @ [HttpGet u pu1] \<and> rate_limiter f' = rate_limiter f"
                using "1.prems" True nx Response rt
                by (subst (asm) retry_loop.simps) (auto simp: Let_def split: if_splits)
              then show ?thesis using w1 by blast
            next
              case (Inr dl)
              have eq: "retry_loop W f u pu attempt tr =
                      retry_loop W ?f2 u None (attempt + 1) (?tr1 @ [Sleep (dl / 1000)])"
                using True nx Response rt Inr
                by (subst retry_loop.simps) (simp add: Let_def)
              show ?thesis
              proof (rule rec[of dl])
                show "retry_loop W ?f2 u None (attempt + 1) (?tr1 @ [Sleep (dl / 1000)]) = Some (r, f', tr')"
                  using eq "1.prems" by simp
                show "(\<exists>ext. tr' = (?tr1 @ [Sleep (dl / 1000)]) @ ext \<and> waits ext = 0) \<and>
                   rate_limiter f' = rate_limiter ?f2"
                  if "retry_loop W ?f2 u None (attempt + 1) (?tr1 @ [Sleep (dl / 1000)]) = Some (r, f', tr')"
                  using "1.IH"(1)[OF True nx refl refl refl refl Response rt Inr that] .
              qed
            qed
          next
            case nrt: False
            then have "tr' = tr @ [HttpGet u pu1] \<and> rate_limiter f' = rate_limiter f"
              using "1.prems" True nx Response
              by (subst (asm) retry_loop.simps) (auto simp: Let_def)
            then show ?thesis using w1 by blast
          qed
        next
          case (Raises e)
          show ?thesis
          proof (cases "e = RequestError")
            case re: True
            show ?thesis
            proof (cases "compute_delay_ms (backoff ?f1) (loop_time W (nat attempt)) (attempt + 1)")
              case (Inl e')
              then have "tr' = tr @ [HttpGet u pu1] \<and> rate_limiter f' = rate_limiter f"
                using "1.prems" True nx Raises re
                by (subst (asm) retry_loop.simps) (auto simp: Let_def split: if_splits)
              then show ?thesis using w1 by blast
            next
              case (Inr dl)
              have eq: "retry_loop W f u pu attempt tr =
                      retry_loop W ?f2 u None (attempt + 1) (?tr1 @ [Sleep (dl / 1000)])"
                using True nx Raises re Inr
                by (subst retry_loop.simps) (simp add: Let_def)
              show ?thesis
              proof (rule rec[of dl])
                show "retry_loop W ?f2 u None (attempt + 1) (?tr1 @ [Sleep (dl / 1000)]) = Some (r, f', tr')"
                  using eq "1.prems" by simp
                show "(\<exists>ext. tr' = (?tr1 @ [Sleep (dl / 1000)]) @ ext \<and> waits ext = 0) \<and>
                   rate_limiter f' = rate_limiter ?f2"
                  if "retry_loop W ?f2 u None (attempt + 1) (?tr1 @ [Sleep (dl / 1000)]) = Some (r, f', tr')"
                  using "1.IH"(2)[OF True nx refl refl refl refl Raises re Inr that] .
              qed
            qed
          next
            case nre: False
            then have "tr' = tr @ [HttpGet u pu1] \<and> rate_limiter f' = rate_limiter f"
              using "1.prems" True nx Raises
              by (subst (asm) retry_loop.simps) (auto simp: Let_def split: if_splits)
            then show ?thesis using w1 by blast
          qed
        qed
      qed
    qed
  qed
qed

text \<open>
  C2, as stated, fails: with a first answer 503 and a second answer 200 the call
  makes two network attempts and calls the rate limiter once.
\<close>

theorem C2_retry_without_wait_counterexample:
  "map_option fst (fetch world_503_then_200 generic_urllib (Fetcher_init [] 800 3 500 8000 False)
      ''http://a.example/x'') = Some (Inr (200, ''ok'')) \<and>
   map_option (attempts \<circ> snd \<circ> snd)
     (fetch world_503_then_200 generic_urllib (Fetcher_init [] 800 3 500 8000 False)
        ''http://a.example/x'') = Some 2 \<and>
   map_option (waits \<circ> snd \<circ> snd)
     (fetch world_503_then_200 generic_urllib (Fetcher_init [] 800 3 500 8000 False)
        ''http://a.example/x'') = Some 1"
  by (simp add: fetch_eval url_eval pool_eval world_503_then_200_def)

text \<open>
  C2, amended. Every \<^verbatim>\<open>fetch\<close> call that makes at least one network attempt calls
  \<^verbatim>\<open>DomainRateLimiter.wait\<close> for the URL's domain exactly once, before the first
  attempt and not again before a retry; the domain's last-request timestamp is
  written once, with the second clock reading of that call.
\<close>

theorem C2_rate_limiter_called_once:
  assumes "fetch W U f u = Some (r, f', tr)"
      and "1 \<le> attempts tr"
  shows "\<exists>d rest. get_domain U u = Inr d \<and> tr = RateWait d # rest \<and> waits rest = 0 \<and>
           waits tr = 1 \<and>
           last_request_ts (rate_limiter f') = (last_request_ts (rate_limiter f))(d \<mapsto> wait_t1 W)"
proof (cases "get_domain U u")
  case (Inl e)
  then have "tr = []" using assms(1) by (simp add: fetch_def)
  then show ?thesis using assms(2) by (simp add: attempts_def)
next
  case (Inr d)
  obtain verdict rc where vr:
    "(if respect_robots f then allowed W U (robots f) u else (Inr True, robots f)) = (verdict, rc)"
    by (cases "if respect_robots f then allowed W U (robots f) u else (Inr True, robots f)")
  obtain rl slept where w: "wait (rate_limiter (f\<lparr>robots := rc\<rparr>)) d (wait_t0 W) (wait_t1 W) = (rl, slept)"
    by (cases "wait (rate_limiter (f\<lparr>robots := rc\<rparr>)) d (wait_t0 W) (wait_t1 W)")
  have rl: "last_request_ts rl = (last_request_ts (rate_limiter f))(d \<mapsto> wait_t1 W)"
    using w by (auto simp: wait_def Let_def)
  have stop: "tr = []" if "verdict = Inr False \<or> verdict = Inl BaseOnly"
    using that assms(1) Inr vr by (auto simp: fetch_def Let_def)
  have go: "retry_loop W (f\<lparr>robots := rc, rate_limiter := rl\<rparr>) u None 0 [RateWait d] = Some (r, f', tr)"
    if "\<not> (verdict = Inr False \<or> verdict = Inl BaseOnly)"
    using that assms(1) Inr vr w by (simp add: fetch_def Let_def)
  show ?thesis
  proof (cases "verdict = Inr False \<or> verdict = Inl BaseOnly")
    case True
    then show ?thesis using stop assms(2) by (simp add: attempts_def)
  next
    case False
    from retry_loop_trace[OF go[OF False]]
    obtain ext where ext: "tr = [RateWait d] @ ext" "waits ext = 0"
      "rate_limiter f' = rate_limiter (f\<lparr>robots := rc, rate_limiter := rl\<rparr>)"
      by blast
    have "waits tr = 1" using ext(1,2) by (simp add: waits_def)
    moreover have "last_request_ts (rate_limiter f') = (last_request_ts (rate_limiter f))(d \<mapsto> wait_t1 W)"
      using ext(3) rl by simp
    ultimately show ?thesis using Inr ext(1,2) by simp
  qed
qed

text \<open>A fetch through two proxies, robots enabled, that retries once.\<close>

theorem C2_rate_limiter_called_once_witness:
  "\<exists>r f' tr. fetch world_503_then_200 generic_urllib (Fetcher_init [''p1'', ''p2''] 800 3 500 8000 True)
                ''http://a.example/x'' = Some (r, f', tr) \<and> attempts tr = 2 \<and>
     get_domain generic_urllib ''http://a.example/x'' = Inr ''a.example'' \<and>
     hd tr = RateWait ''a.example'' \<and> waits tr = 1 \<and>
     last_request_ts (rate_limiter f') ''a.example'' = Some 5"
proof -
  let ?r = "fetch world_503_then_200 generic_urllib (Fetcher_init [''p1'', ''p2''] 800 3 500 8000 True)
                ''http://a.example/x''"
  obtain r f' tr where e: "?r = Some (r, f', tr)"
    by (cases ?r) (auto simp: fetch_eval url_eval pool_eval robots_eval next_loop.simps world_503_then_200_def)
  have "map_option (attempts \<circ> snd \<circ> snd) ?r = Some 2"
    by (simp add: fetch_eval url_eval pool_eval robots_eval next_loop.simps world_503_then_200_def)
  then have a: "attempts tr = 2" using e by simp
  then have h: "1 \<le> attempts tr" by simp
  have d: "get_domain generic_urllib ''http://a.example/x'' = Inr ''a.example''"
    by (simp add: url_eval)
  from C2_rate_limiter_called_once[OF e h] d
  have "hd tr = RateWait ''a.example'' \<and> waits tr = 1 \<and>
        last_request_ts (rate_limiter f') ''a.example'' = Some 5"
    by (auto simp: world_503_then_200_def)
  then show ?thesis using e a d by blast
qed





text \<open>
  Why the robots check is among the hypotheses: when the host answers 503 for
  robots.txt as well, \<^verbatim>\<open>read\<close> returns with nothing read, \<^verbatim>\<open>allowed\<close> answers false, and
  \<^verbatim>\<open>fetch\<close> returns 451 without a single attempt.
\<close>

lemma fetch_failing_host_blocked:
  "map_option fst (fetch world_host_503 generic_urllib (Fetcher_init [] 800 2 500 8000 True)
      ''http://a.example/x'') = Some (Inr (451, ''Blocked by robots.txt'')) \<and>
   map_option (attempts \<circ> snd \<circ> snd)
     (fetch world_host_503 generic_urllib (Fetcher_init [] 800 2 500 8000 True)
        ''http://a.example/x'') = Some 0"
  by (simp add: fetch_eval url_eval robots_eval world_host_503_def)



section \<open>Scheduler: deduplication and scope\<close>

lemma enqueue_allowed_domains:
  "enqueue U s raw = Inr s' \<Longrightarrow> allowed_domains s' = allowed_domains s"
  by (auto simp: enqueue_def put_nowait_def split: sum.splits if_splits)

lemma enqueue_cases:
  assumes "enqueue U s raw = Inr s'"
  shows "s' = s \<or>
         (\<exists>v. normalize_url U raw = Inr v \<and> v \<notin> seen s \<and>
           (allowed_domains s \<noteq> [] \<longrightarrow> same_domain U v (allowed_domains s) = Inr True) \<and>
           s' = s\<lparr>seen := insert v (seen s), queue := queue s @ [v],
                   unfinished_tasks := Suc (unfinished_tasks s)\<rparr>)"
  using assms
  by (auto simp: enqueue_def put_nowait_def split: sum.splits if_splits)

text \<open>
  C3. After an \<^verbatim>\<open>enqueue\<close> of a URL from any scheduler state, an \<^verbatim>\<open>enqueue\<close> of any
  URL with the same normalized form raises nothing and leaves the scheduler as it
  is: the queue has the same length and the seen-set the same size.
\<close>

theorem C3_second_enqueue_is_noop:
  assumes "enqueue U s raw = Inr s1"
      and "normalize_url U raw' = normalize_url U raw"
  shows "\<exists>s2. enqueue U s1 raw' = Inr s2 \<and> s2 = s1 \<and>
              length (queue s2) = length (queue s1) \<and> card (seen s2) = card (seen s1)"
proof -
  have "enqueue U s1 raw' = Inr s1"
    using assms
    by (auto simp: enqueue_def put_nowait_def split: sum.splits if_splits)
  then show ?thesis by simp
qed

text \<open>Two URLs that differ in the fragment only.\<close>

theorem C3_second_enqueue_is_noop_witness:
  "enqueue generic_urllib
     \<lparr>queue = [], unfinished_tasks = 0, seen = {}, allowed_domains = [''a.example'']\<rparr>
     ''http://a.example/x#top''
   = Inr \<lparr>queue = [''http://a.example/x''], unfinished_tasks = 1,
          seen = {''http://a.example/x''}, allowed_domains = [''a.example'']\<rparr> \<and>
   normalize_url generic_urllib ''http://a.example/x#end''
   = normalize_url generic_urllib ''http://a.example/x#top'' \<and>
   enqueue generic_urllib
     \<lparr>queue = [''http://a.example/x''], unfinished_tasks = 1,
      seen = {''http://a.example/x''}, allowed_domains = [''a.example'']\<rparr>
     ''http://a.example/x#end''
   = Inr \<lparr>queue = [''http://a.example/x''], unfinished_tasks = 1,
          seen = {''http://a.example/x''}, allowed_domains = [''a.example'']\<rparr>"
proof -
  let ?s = "\<lparr>queue = [], unfinished_tasks = 0, seen = {}, allowed_domains = [''a.example'']\<rparr>"
  let ?s1 = "\<lparr>queue = [''http://a.example/x''], unfinished_tasks = 1,
          seen = {''http://a.example/x''}, allowed_domains = [''a.example'']\<rparr>"
  have h1: "enqueue generic_urllib ?s ''http://a.example/x#top'' = Inr ?s1"
    by (simp add: enqueue_def put_nowait_def url_eval)
  have h2: "normalize_url generic_urllib ''http://a.example/x#end''
              = normalize_url generic_urllib ''http://a.example/x#top''"
    by (simp add: url_eval)
  show ?thesis using C3_second_enqueue_is_noop[OF h1 h2] h1 h2 by simp
qed

lemma enqueue_scoped:
  assumes "allowed_domains s \<noteq> []" "scoped U s" "enqueue U s raw = Inr s'"
  shows "scoped U s'"
proof -
  from enqueue_cases[OF assms(3)] show ?thesis
  proof
    assume "s' = s"
    then show ?thesis using assms(2) by simp
  next
    assume "\<exists>v. normalize_url U raw = Inr v \<and> v \<notin> seen s \<and>
           (allowed_domains s \<noteq> [] \<longrightarrow> same_domain U v (allowed_domains s) = Inr True) \<and>
           s' = s\<lparr>seen := insert v (seen s), queue := queue s @ [v],
                   unfinished_tasks := Suc (unfinished_tasks s)\<rparr>"
    then obtain v where v: "same_domain U v (allowed_domains s) = Inr True"
        "s' = s\<lparr>seen := insert v (seen s), queue := queue s @ [v],
                   unfinished_tasks := Suc (unfinished_tasks s)\<rparr>"
      using assms(1) by blast
    have "in_scope U (allowed_domains s) v"
      using v(1) by (simp add: in_scope_def)
    then show ?thesis using assms(2) v(2) by (simp add: scoped_def)
  qed
qed

lemma enqueue_call_scoped:
  assumes "allowed_domains s \<noteq> []" "scoped U s"
  shows "scoped U (enqueue_call U s raw) \<and> allowed_domains (enqueue_call U s raw) = allowed_domains s"
proof (cases "enqueue U s raw")
  case (Inl e)
  then show ?thesis using assms by (simp add: enqueue_call_def)
next
  case (Inr s')
  then show ?thesis using assms enqueue_scoped enqueue_allowed_domains
    by (simp add: enqueue_call_def)
qed

lemma enqueue_calls_scoped:
  assumes "allowed_domains s \<noteq> []" "scoped U s"
  shows "scoped U (enqueue_calls U s raws) \<and> allowed_domains (enqueue_calls U s raws) = allowed_domains s"
  using assms unfolding enqueue_calls_def
proof (induction raws arbitrary: s)
  case Nil
  then show ?case by simp
next
  case (Cons r raws)
  then show ?case using enqueue_call_scoped[of s U r] by simp
qed

lemma enqueue_seeds_scoped:
  assumes "allowed_domains s \<noteq> []" "scoped U s" "enqueue_seeds U s vs = Inr s'"
  shows "scoped U s' \<and> allowed_domains s' = allowed_domains s"
  using assms
proof (induction vs arbitrary: s)
  case Nil
  then show ?case by simp
next
  case (Cons v vs)
  then obtain s1 where s1: "enqueue U s v = Inr s1" "enqueue_seeds U s1 vs = Inr s'"
    by (auto split: sum.splits)
  have "scoped U s1" "allowed_domains s1 = allowed_domains s"
    using enqueue_scoped[OF Cons.prems(1,2) s1(1)] enqueue_allowed_domains[OF s1(1)] by simp_all
  then show ?case using Cons.IH[of s1] s1(2) Cons.prems(1) by simp
qed

lemma enqueue_out_of_scope:
  assumes "allowed_domains s \<noteq> []"
      and "normalize_url U raw = Inr v"
      and "get_domain U v = Inr n"
      and "\<not> list_ex (\<lambda>d. endswith (lower n) (lower d)) (allowed_domains s)"
  shows "enqueue U s raw = Inr s"
  using assms by (simp add: enqueue_def same_domain_def)

text \<open>
  C4. With a non-empty list of allowed domains, after the constructor and any
  sequence of \<^verbatim>\<open>enqueue\<close> calls, every URL in the seen-set and in the queue is in
  scope; and a URL whose normalized form has a domain that ends, ignoring case, with
  none of the allowed domains is not in the seen-set, is not in the queue, and an
  \<^verbatim>\<open>enqueue\<close> of it changes nothing.
\<close>

theorem C4_out_of_scope_never_stored:
  assumes "domains \<noteq> []"
      and "Scheduler_init U seeds domains = Inr s0"
      and "s = enqueue_calls U s0 raws"
  shows "(\<forall>v \<in> seen s \<union> set (queue s). in_scope U domains v) \<and>
         (\<forall>raw v n. normalize_url U raw = Inr v \<and> get_domain U v = Inr n \<and>
                     \<not> list_ex (\<lambda>d. endswith (lower n) (lower d)) domains
                     \<longrightarrow> enqueue U s raw = Inr s \<and> v \<notin> seen s \<and> v \<notin> set (queue s))"
proof -
  let ?e = "\<lparr>queue = [], unfinished_tasks = 0, seen = {}, allowed_domains = domains\<rparr>"
  have "scoped U ?e" by (simp add: scoped_def)
  then have s0: "scoped U s0" "allowed_domains s0 = domains"
    using enqueue_seeds_scoped[of ?e U seeds s0] assms(1,2) by (simp_all add: Scheduler_init_def)
  have s: "scoped U s" "allowed_domains s = domains"
    using enqueue_calls_scoped[of s0 U raws] s0 assms(1,3) by simp_all
  have a: "\<forall>v \<in> seen s \<union> set (queue s). in_scope U domains v"
    using s by (simp add: scoped_def)
  have b: "enqueue U s raw = Inr s \<and> v \<notin> seen s \<and> v \<notin> set (queue s)"
    if h: "normalize_url U raw = Inr v \<and> get_domain U v = Inr n \<and>
           \<not> list_ex (\<lambda>d. endswith (lower n) (lower d)) domains" for raw v n
  proof -
    have "enqueue U s raw = Inr s"
      using enqueue_out_of_scope[of s U raw v n] h s(2) assms(1) by simp
    moreover have "\<not> in_scope U domains v"
      using h by (simp add: in_scope_def same_domain_def)
    ultimately show ?thesis using a by blast
  qed
  show ?thesis using a b by blast
qed

text \<open>A subdomain in upper case is kept; another domain is dropped.\<close>

theorem C4_out_of_scope_never_stored_witness:
  "Scheduler_init generic_urllib [''http://a.example/x''] [''a.example'']
     = Inr \<lparr>queue = [''http://a.example/x''], unfinished_tasks = 1,
            seen = {''http://a.example/x''}, allowed_domains = [''a.example'']\<rparr> \<and>
   enqueue_calls generic_urllib
     \<lparr>queue = [''http://a.example/x''], unfinished_tasks = 1,
      seen = {''http://a.example/x''}, allowed_domains = [''a.example'']\<rparr>
     [''http://Sub.A.Example/y#f'']
     = \<lparr>queue = [''http://a.example/x'', ''http://Sub.A.Example/y''], unfinished_tasks = 2,
        seen = {''http://Sub.A.Example/y'', ''http://a.example/x''}, allowed_domains = [''a.example'']\<rparr> \<and>
   in_scope generic_urllib [''a.example''] ''http://Sub.A.Example/y'' \<and>
   enqueue generic_urllib
     \<lparr>queue = [''http://a.example/x'', ''http://Sub.A.Example/y''], unfinished_tasks = 2,
      seen = {''http://Sub.A.Example/y'', ''http://a.example/x''}, allowed_domains = [''a.example'']\<rparr>
     ''http://b.example/z#f''
     = Inr \<lparr>queue = [''http://a.example/x'', ''http://Sub.A.Example/y''], unfinished_tasks = 2,
        seen = {''http://Sub.A.Example/y'', ''http://a.example/x''}, allowed_domains = [''a.example'']\<rparr>"
proof -
  let ?ini = "\<lparr>queue = [''http://a.example/x''], unfinished_tasks = 1,
            seen = {''http://a.example/x''}, allowed_domains = [''a.example'']\<rparr>"
  let ?s = "\<lparr>queue = [''http://a.example/x'', ''http://Sub.A.Example/y''], unfinished_tasks = 2,
        seen = {''http://Sub.A.Example/y'', ''http://a.example/x''}, allowed_domains = [''a.example'']\<rparr>"
  have h1: "[''a.example''] \<noteq> []" by simp
  have h2: "Scheduler_init generic_urllib [''http://a.example/x''] [''a.example''] = Inr ?ini"
    by (simp add: Scheduler_init_def enqueue_def put_nowait_def url_eval)
  have h3: "?s = enqueue_calls generic_urllib ?ini [''http://Sub.A.Example/y#f'']"
    by (simp add: enqueue_calls_def enqueue_call_def enqueue_def put_nowait_def url_eval)
  have n: "normalize_url generic_urllib ''http://b.example/z#f'' = Inr ''http://b.example/z''"
    by (simp add: url_eval)
  have d: "get_domain generic_urllib ''http://b.example/z'' = Inr ''b.example''"
    by (simp add: url_eval)
  have o: "\<not> list_ex (\<lambda>d. endswith (lower ''b.example'') (lower d)) [''a.example'']"
    by (simp add: url_eval)
  from C4_out_of_scope_never_stored[OF h1 h2 h3]
  have a: "\<forall>v \<in> seen ?s \<union> set (queue ?s). in_scope generic_urllib [''a.example''] v"
    and b: "\<forall>raw v n. normalize_url generic_urllib raw = Inr v \<and> get_domain generic_urllib v = Inr n \<and>
                     \<not> list_ex (\<lambda>d. endswith (lower n) (lower d)) [''a.example'']
                     \<longrightarrow> enqueue generic_urllib ?s raw = Inr ?s \<and> v \<notin> seen ?s \<and> v \<notin> set (queue ?s)"
    by blast+
  have "in_scope generic_urllib [''a.example''] ''http://Sub.A.Example/y''" using a by simp
  moreover have "enqueue generic_urllib ?s ''http://b.example/z#f'' = Inr ?s"
    using b n d o by blast
  ultimately show ?thesis using h2 h3 by simp
qed

section \<open>Scheduler.run: errors of the handler\<close>

lemma busy_count_update:
  assumes "i < length ws"
  shows "busy_count (ws[i := w]) + (if is_busy (ws ! i) then 1 else 0)
           = busy_count ws + (if is_busy w then 1 else 0)"
  using assms
proof (induction ws arbitrary: i)
  case Nil
  then show ?case by simp
next
  case (Cons a ws)
  show ?case
  proof (cases i)
    case 0
    then show ?thesis by (simp add: busy_count_def)
  next
    case (Suc j)
    then have "j < length ws" using Cons.prems by simp
    from Cons.IH[OF this] show ?thesis using Suc by (simp add: busy_count_def)
  qed
qed

lemma list_all_update:
  "list_all P ws \<Longrightarrow> P w \<Longrightarrow> list_all P (ws[i := w])"
  by (induction ws arbitrary: i) (auto split: nat.splits)

lemma enqueue_call_balance:
  "unfinished_tasks (enqueue_call U s d) + length (queue s)
     = unfinished_tasks s + length (queue (enqueue_call U s d))"
proof (cases "enqueue U s d")
  case (Inl e)
  then show ?thesis by (simp add: enqueue_call_def)
next
  case (Inr s')
  from enqueue_cases[OF Inr] show ?thesis using Inr by (auto simp: enqueue_call_def)
qed

lemma enqueue_seeds_balance:
  "enqueue_seeds U s vs = Inr s' \<Longrightarrow>
     unfinished_tasks s' + length (queue s) = unfinished_tasks s + length (queue s')"
proof (induction vs arbitrary: s)
  case Nil
  then show ?case by simp
next
  case (Cons v vs)
  then obtain s1 where s1: "enqueue U s v = Inr s1" "enqueue_seeds U s1 vs = Inr s'"
    by (auto split: sum.splits)
  have "unfinished_tasks s1 + length (queue s) = unfinished_tasks s + length (queue s1)"
    using enqueue_call_balance[of U s v] s1(1) by (simp add: enqueue_call_def)
  then show ?case using Cons.IH[OF s1(2)] by simp
qed

lemma finish_item_raised:
  assumes "i < length (workers st)" "workers st ! i = Busy v []" "pool_inv st"
      and "r = None \<or> (\<exists>e. r = Some e \<and> is_Exception e)"
  shows "workers (finish_item st i v r) ! i = Idle \<and>
         Suc (unfinished_tasks (sched (finish_item st i v r))) = unfinished_tasks (sched st) \<and>
         errlog (finish_item st i v r)
           = errlog st @ (case r of None \<Rightarrow> [] | Some e \<Rightarrow> [(i, v, e)]) \<and>
         pool_inv (finish_item st i v r)"
proof -
  have b: "is_busy (workers st ! i)" using assms(2) by (simp add: is_busy_def)
  have bc: "busy_count ((workers st)[i := Idle]) + 1 = busy_count (workers st)"
    using busy_count_update[OF assms(1), of Idle] b by (simp add: is_busy_def)
  then have pos: "0 < unfinished_tasks (sched st)" using assms(3) by (simp add: pool_inv_def)
  have al: "list_all alive ((workers st)[i := Idle])"
    using assms(3) by (simp add: pool_inv_def list_all_update alive_def)
  from assms(4) show ?thesis
  proof
    assume "r = None"
    then show ?thesis using pos bc al assms(1,3)
      by (simp add: finish_item_def task_done_def pool_inv_def)
  next
    assume "\<exists>e. r = Some e \<and> is_Exception e"
    then obtain e where "r = Some e" "is_Exception e" by blast
    then show ?thesis using pos bc al assms(1,3)
      by (simp add: finish_item_def task_done_def pool_inv_def)
  qed
qed

lemma worker_turn_inv:
  assumes "\<forall>v e. raised (handler v) = Some e \<longrightarrow> is_Exception e"
      and "pool_inv st"
  shows "pool_inv (worker_turn U handler st i)"
proof (cases "i < length (workers st)")
  case False
  then show ?thesis using assms(2) by (simp add: worker_turn_def)
next
  case True
  show ?thesis
  proof (cases "workers st ! i")
    case Idle
    show ?thesis
    proof (cases "queue (sched st)")
      case Nil
      then show ?thesis using True Idle assms(2) by (simp add: worker_turn_def)
    next
      case (Cons v rest)
      have "busy_count ((workers st)[i := Busy v (discovered (handler v))])
              = busy_count (workers st) + 1"
        using busy_count_update[OF True, of "Busy v (discovered (handler v))"] Idle
        by (simp add: is_busy_def)
      moreover have "list_all alive ((workers st)[i := Busy v (discovered (handler v))])"
        using assms(2) by (simp add: pool_inv_def list_all_update alive_def)
      ultimately show ?thesis using True Idle Cons assms(2)
        by (simp add: worker_turn_def pool_inv_def)
    qed
  next
    case (Busy v todo)
    show ?thesis
    proof (cases todo)
      case Nil
      have "raised (handler v) = None \<or> (\<exists>e. raised (handler v) = Some e \<and> is_Exception e)"
        using assms(1) by (cases "raised (handler v)") auto
      from finish_item_raised[OF True _ assms(2) this, of v] Busy Nil
      show ?thesis using True by (simp add: worker_turn_def)
    next
      case (Cons d ds)
      have "busy_count ((workers st)[i := Busy v ds]) = busy_count (workers st)"
        using busy_count_update[OF True, of "Busy v ds"] Busy by (simp add: is_busy_def)
      moreover have "list_all alive ((workers st)[i := Busy v ds])"
        using assms(2) by (simp add: pool_inv_def list_all_update alive_def)
      moreover have "unfinished_tasks (enqueue_call U (sched st) d) + length (queue (sched st))
         = unfinished_tasks (sched st) + length (queue (enqueue_call U (sched st) d))"
        by (rule enqueue_call_balance)
      ultimately show ?thesis using True Busy Cons assms(2)
        by (simp add: worker_turn_def pool_inv_def)
    qed
  next
    case (Dead e)
    then show ?thesis using True assms(2) by (simp add: worker_turn_def)
  next
    case Cancelled
    then show ?thesis using True assms(2) by (simp add: worker_turn_def)
  qed
qed

lemma worker_turns_inv:
  assumes "\<forall>v e. raised (handler v) = Some e \<longrightarrow> is_Exception e"
      and "pool_inv st"
  shows "pool_inv (worker_turns U handler st turns)"
  using assms(2) unfolding worker_turns_def
  by (induction turns arbitrary: st) (simp_all add: worker_turn_inv[OF assms(1)])

lemma drained_turn_idle:
  assumes "pool_inv st" and "unfinished_tasks (sched st) = 0"
  shows "worker_turn U handler st i = st"
proof (cases "i < length (workers st)")
  case False
  then show ?thesis by (simp add: worker_turn_def)
next
  case True
  have q: "queue (sched st) = []" and b: "filter is_busy (workers st) = []"
    using assms by (simp_all add: pool_inv_def busy_count_def)
  have w: "workers st ! i \<in> set (workers st)" using True by simp
  then have nb: "\<not> is_busy (workers st ! i)" using b by (simp add: filter_empty_conv)
  have al: "alive (workers st ! i)" using assms(1) w by (simp add: pool_inv_def list_all_iff)
  have "workers st ! i = Idle"
    using nb al by (cases "workers st ! i") (simp_all add: is_busy_def alive_def)
  then show ?thesis using True q by (simp add: worker_turn_def)
qed

lemma drained_turns_idle:
  assumes "pool_inv st" and "unfinished_tasks (sched st) = 0"
  shows "worker_turns U handler st turns = st"
  unfolding worker_turns_def
  by (induction turns) (simp_all add: drained_turn_idle[OF assms])

lemma run_loop_result:
  assumes "\<forall>v e. raised (handler v) = Some e \<longrightarrow> is_Exception e"
      and "pool_inv st"
      and "unfinished_tasks (sched (worker_turns U handler st turns)) = 0"
  shows "run_loop U handler st turns
           = Some ((worker_turns U handler st turns)
                     \<lparr>workers := map (\<lambda>w. Cancelled) (workers (worker_turns U handler st turns))\<rparr>)"
  using assms(2,3)
proof (induction turns arbitrary: st)
  case Nil
  then show ?case by (simp add: worker_turns_def)
next
  case (Cons i rest)
  show ?case
  proof (cases "unfinished_tasks (sched st) = 0")
    case True
    have "worker_turns U handler st (i # rest) = st"
      using drained_turns_idle[OF Cons.prems(1) True] by simp
    then show ?thesis using True by simp
  next
    case False
    have inv: "pool_inv (worker_turn U handler st i)"
      using worker_turn_inv[OF assms(1) Cons.prems(1)] by simp
    have eq: "worker_turns U handler st (i # rest)
                = worker_turns U handler (worker_turn U handler st i) rest"
      by (simp add: worker_turns_def)
    have "unfinished_tasks (sched (worker_turns U handler (worker_turn U handler st i) rest)) = 0"
      using Cons.prems(2) eq by simp
    from Cons.IH[OF inv this] show ?thesis using False eq by simp
  qed
qed

lemma run_loop_drained:
  assumes "\<forall>v e. raised (handler v) = Some e \<longrightarrow> is_Exception e"
      and "pool_inv st"
      and "run_loop U handler st turns = Some st'"
  shows "unfinished_tasks (sched st') = 0 \<and> queue (sched st') = [] \<and>
         list_all (\<lambda>w. w = Cancelled) (workers st')"
  using assms(2,3)
proof (induction turns arbitrary: st)
  case Nil
  then have z: "unfinished_tasks (sched st) = 0" and s: "st' = st\<lparr>workers := map (\<lambda>w. Cancelled) (workers st)\<rparr>"
    by (auto split: if_splits)
  have "queue (sched st) = []" using Nil.prems(1) z by (simp add: pool_inv_def)
  then show ?case using z s by (simp add: list_all_iff)
next
  case (Cons i rest)
  show ?case
  proof (cases "unfinished_tasks (sched st) = 0")
    case True
    then have s: "st' = st\<lparr>workers := map (\<lambda>w. Cancelled) (workers st)\<rparr>"
      using Cons.prems(2) by simp
    have "queue (sched st) = []" using Cons.prems(1) True by (simp add: pool_inv_def)
    then show ?thesis using True s by (simp add: list_all_iff)
  next
    case False
    have inv: "pool_inv (worker_turn U handler st i)"
      using worker_turn_inv[OF assms(1) Cons.prems(1)] by simp
    have "run_loop U handler (worker_turn U handler st i) rest = Some st'"
      using Cons.prems(2) False by simp
    from Cons.IH[OF inv this] show ?thesis .
  qed
qed

text \<open>Once every worker has left its loop with a task unfinished, \<^verbatim>\<open>run\<close> never returns.\<close>

lemma run_loop_dead_pool:
  assumes "list_all (\<lambda>w. case w of Dead e \<Rightarrow> True | _ \<Rightarrow> False) (workers st)"
      and "unfinished_tasks (sched st) \<noteq> 0"
  shows "run_loop U handler st turns = None"
proof (induction turns)
  case Nil
  then show ?case using assms(2) by simp
next
  case (Cons i rest)
  have "worker_turn U handler st i = st"
  proof (cases "i < length (workers st)")
    case False
    then show ?thesis by (simp add: worker_turn_def)
  next
    case True
    then have "case workers st ! i of Dead e \<Rightarrow> True | _ \<Rightarrow> False"
      using assms(1) by (simp add: list_all_length)
    then show ?thesis using True by (cases "workers st ! i") (simp_all add: worker_turn_def)
  qed
  then show ?case using Cons.IH assms(2) by simp
qed

text \<open>
  C9, as stated, fails for a handler that raises an exception outside \<^verbatim>\<open>Exception\<close>
  (\<^verbatim>\<open>asyncio.CancelledError\<close>, for one): \<^verbatim>\<open>except Exception\<close> does not catch it. With one
  worker and two URLs, the worker marks the first item done and leaves its loop,
  nothing is logged, the second URL stays in the queue, and \<^verbatim>\<open>run\<close> has not returned.
\<close>

theorem C9_base_exception_counterexample:
  "workers (worker_turns generic_urllib handler_base_exit
      \<lparr>sched = \<lparr>queue = [''http://a.example/x'', ''http://a.example/y''], unfinished_tasks = 2,
            seen = {''http://a.example/x'', ''http://a.example/y''},
            allowed_domains = [''a.example'']\<rparr>,
       workers = replicate (nat 1) Idle, errlog = []\<rparr> [0, 0]) = [Dead BaseOnly] \<and>
   errlog (worker_turns generic_urllib handler_base_exit
      \<lparr>sched = \<lparr>queue = [''http://a.example/x'', ''http://a.example/y''], unfinished_tasks = 2,
            seen = {''http://a.example/x'', ''http://a.example/y''},
            allowed_domains = [''a.example'']\<rparr>,
       workers = replicate (nat 1) Idle, errlog = []\<rparr> [0, 0]) = [] \<and>
   queue (sched (worker_turns generic_urllib handler_base_exit
      \<lparr>sched = \<lparr>queue = [''http://a.example/x'', ''http://a.example/y''], unfinished_tasks = 2,
            seen = {''http://a.example/x'', ''http://a.example/y''},
            allowed_domains = [''a.example'']\<rparr>,
       workers = replicate (nat 1) Idle, errlog = []\<rparr> [0, 0, 0, 0, 0, 0]))
     = [''http://a.example/y''] \<and>
   run generic_urllib handler_base_exit
      \<lparr>queue = [''http://a.example/x'', ''http://a.example/y''], unfinished_tasks = 2,
            seen = {''http://a.example/x'', ''http://a.example/y''},
            allowed_domains = [''a.example'']\<rparr> 1 [0, 0, 0, 0, 0, 0] = None"
  by (simp add: run_def worker_turns_def worker_turn_def finish_item_def task_done_def
        handler_base_exit_def is_Exception_def)

text \<open>
  C9, amended. The handler raises only exceptions that derive from \<^verbatim>\<open>Exception\<close>.
  Then, after the constructor and any turns of the workers: every worker is still
  in its loop; a worker whose handler ends by raising logs the error, marks the item
  done and is back at \<^verbatim>\<open>queue.get()\<close>; once the queue is empty and no handler is
  running, \<^verbatim>\<open>run\<close> has returned, and what it leaves is the state the processing
  reached (its queue, its seen-set, its log of errors) with the workers cancelled;
  and \<^verbatim>\<open>run\<close> returns only with the queue empty and no task unfinished.
\<close>

theorem C9_handler_exceptions_isolated:
  assumes "\<forall>v e. raised (handler v) = Some e \<longrightarrow> is_Exception e"
      and "Scheduler_init U seeds domains = Inr s"
      and "st = worker_turns U handler
                  \<lparr>sched = s, workers = replicate (nat concurrency) Idle, errlog = []\<rparr> turns"
  shows "list_all alive (workers st) \<and>
         (\<forall>i v e. i < length (workers st) \<and> workers st ! i = Busy v [] \<and>
                   raised (handler v) = Some e \<longrightarrow>
            workers (worker_turn U handler st i) ! i = Idle \<and>
            errlog (worker_turn U handler st i) = errlog st @ [(i, v, e)] \<and>
            Suc (unfinished_tasks (sched (worker_turn U handler st i)))
              = unfinished_tasks (sched st)) \<and>
         (queue (sched st) = [] \<and> \<not> list_ex is_busy (workers st) \<longrightarrow>
            run U handler s concurrency turns
              = Some (st\<lparr>workers := map (\<lambda>w. Cancelled) (workers st)\<rparr>)) \<and>
         (\<forall>st'. run U handler s concurrency turns = Some st' \<longrightarrow>
            unfinished_tasks (sched st') = 0 \<and> queue (sched st') = [] \<and>
            list_all (\<lambda>w. w = Cancelled) (workers st'))"
proof -
  let ?ini = "\<lparr>sched = s, workers = replicate (nat concurrency) Idle, errlog = []\<rparr>"
  have "enqueue_seeds U \<lparr>queue = [], unfinished_tasks = 0, seen = {}, allowed_domains = domains\<rparr>
          seeds = Inr s"
    using assms(2) by (simp add: Scheduler_init_def)
  from enqueue_seeds_balance[OF this]
  have "unfinished_tasks s = length (queue s)" by simp
  moreover have "busy_count (replicate n Idle) = 0" for n :: nat
    by (simp add: busy_count_def is_busy_def)
  moreover have "list_all alive (replicate n Idle)" for n
    by (simp add: list_all_iff alive_def)
  ultimately have ini: "pool_inv ?ini" by (simp add: pool_inv_def)
  then have inv: "pool_inv st" using worker_turns_inv[OF assms(1)] assms(3) by simp
  have a: "list_all alive (workers st)" using inv by (simp add: pool_inv_def)
  have b: "workers (worker_turn U handler st i) ! i = Idle \<and>
            errlog (worker_turn U handler st i) = errlog st @ [(i, v, e)] \<and>
            Suc (unfinished_tasks (sched (worker_turn U handler st i)))
              = unfinished_tasks (sched st)"
    if h: "i < length (workers st) \<and> workers st ! i = Busy v [] \<and> raised (handler v) = Some e"
    for i v e
  proof -
    have "is_Exception e" using h assms(1) by blast
    then have "raised (handler v) = None \<or> (\<exists>e. raised (handler v) = Some e \<and> is_Exception e)"
      using h by simp
    from finish_item_raised[OF _ _ inv this, of i v] h
    show ?thesis by (simp add: worker_turn_def)
  qed
  have c: "run U handler s concurrency turns
              = Some (st\<lparr>workers := map (\<lambda>w. Cancelled) (workers st)\<rparr>)"
    if h: "queue (sched st) = [] \<and> \<not> list_ex is_busy (workers st)"
  proof -
    have "filter is_busy (workers st) = []"
      using h by (simp add: list_ex_iff filter_empty_conv)
    then have "unfinished_tasks (sched st) = 0"
      using inv h by (simp add: pool_inv_def busy_count_def)
    then show ?thesis using run_loop_result[OF assms(1) ini, of U turns] assms(3)
      by (simp add: run_def)
  qed
  have d: "unfinished_tasks (sched st') = 0 \<and> queue (sched st') = [] \<and>
            list_all (\<lambda>w. w = Cancelled) (workers st')"
    if "run U handler s concurrency turns = Some st'" for st'
    using run_loop_drained[OF assms(1) ini, of U turns st'] that by (simp add: run_def)
  show ?thesis using a b c d by blast
qed

text \<open>Two workers, two seeds; the handler of the first URL finds a link and raises.\<close>

theorem C9_handler_exceptions_isolated_witness:
  "raised (handler_one_bad ''http://a.example/x'') = Some OtherException \<and>
   is_Exception OtherException \<and>
   Scheduler_init generic_urllib [''http://a.example/x'', ''http://a.example/y''] [''a.example'']
     = Inr \<lparr>queue = [''http://a.example/x'', ''http://a.example/y''], unfinished_tasks = 2,
            seen = {''http://a.example/x'', ''http://a.example/y''},
            allowed_domains = [''a.example'']\<rparr> \<and>
   workers (worker_turns generic_urllib handler_one_bad
      \<lparr>sched = \<lparr>queue = [''http://a.example/x'', ''http://a.example/y''], unfinished_tasks = 2,
            seen = {''http://a.example/x'', ''http://a.example/y''},
            allowed_domains = [''a.example'']\<rparr>,
       workers = replicate (nat 2) Idle, errlog = []\<rparr> [0, 1, 0]) ! 0
     = Busy ''http://a.example/x'' [] \<and>
   errlog (worker_turn generic_urllib handler_one_bad
      (worker_turns generic_urllib handler_one_bad
        \<lparr>sched = \<lparr>queue = [''http://a.example/x'', ''http://a.example/y''], unfinished_tasks = 2,
            seen = {''http://a.example/x'', ''http://a.example/y''},
            allowed_domains = [''a.example'']\<rparr>,
         workers = replicate (nat 2) Idle, errlog = []\<rparr> [0, 1, 0]) 0)
     = [(0, ''http://a.example/x'', OtherException)] \<and>
   workers (worker_turn generic_urllib handler_one_bad
      (worker_turns generic_urllib handler_one_bad
        \<lparr>sched = \<lparr>queue = [''http://a.example/x'', ''http://a.example/y''], unfinished_tasks = 2,
            seen = {''http://a.example/x'', ''http://a.example/y''},
            allowed_domains = [''a.example'']\<rparr>,
         workers = replicate (nat 2) Idle, errlog = []\<rparr> [0, 1, 0]) 0) ! 0 = Idle \<and>
   (\<exists>st'. run generic_urllib handler_one_bad
      \<lparr>queue = [''http://a.example/x'', ''http://a.example/y''], unfinished_tasks = 2,
            seen = {''http://a.example/x'', ''http://a.example/y''},
            allowed_domains = [''a.example'']\<rparr> 2 [0, 1, 0, 0, 1, 0, 0] = Some st' \<and>
      list_all (\<lambda>w. w = Cancelled) (workers st') \<and>
      queue (sched st') = [] \<and> unfinished_tasks (sched st') = 0 \<and>
      errlog st' = [(0, ''http://a.example/x'', OtherException)])"
proof -
  let ?S = "\<lparr>queue = [''http://a.example/x'', ''http://a.example/y''], unfinished_tasks = 2,
            seen = {''http://a.example/x'', ''http://a.example/y''},
            allowed_domains = [''a.example'']\<rparr>"
  let ?ini = "\<lparr>sched = ?S, workers = replicate (nat 2) Idle, errlog = []\<rparr>"
  let ?mid = "worker_turns generic_urllib handler_one_bad ?ini [0, 1, 0]"
  let ?fin = "worker_turns generic_urllib handler_one_bad ?ini [0, 1, 0, 0, 1, 0, 0]"
  have h1: "\<forall>v e. raised (handler_one_bad v) = Some e \<longrightarrow> is_Exception e"
    by (simp add: handler_one_bad_def is_Exception_def)
  have h2: "Scheduler_init generic_urllib [''http://a.example/x'', ''http://a.example/y'']
              [''a.example''] = Inr ?S"
    by (simp add: run_eval url_eval insert_commute)
  have m: "workers ?mid ! 0 = Busy ''http://a.example/x'' []" "0 < length (workers ?mid)"
    by (simp_all add: run_eval url_eval numeral_2_eq_2)
  have r: "raised (handler_one_bad ''http://a.example/x'') = Some OtherException"
    by (simp add: handler_one_bad_def)
  have el: "errlog ?mid = []"
    by (simp add: run_eval url_eval numeral_2_eq_2)
  have f: "queue (sched ?fin) = [] \<and> \<not> list_ex is_busy (workers ?fin)"
    by (simp add: run_eval url_eval numeral_2_eq_2)
  from C9_handler_exceptions_isolated[OF h1 h2 refl, of 2 "[0, 1, 0]"] m r el
  have a: "workers (worker_turn generic_urllib handler_one_bad ?mid 0) ! 0 = Idle \<and>
           errlog (worker_turn generic_urllib handler_one_bad ?mid 0)
             = [(0, ''http://a.example/x'', OtherException)]"
    by fastforce
  from C9_handler_exceptions_isolated[OF h1 h2 refl, of 2 "[0, 1, 0, 0, 1, 0, 0]"] f
  have b0: "run generic_urllib handler_one_bad ?S 2 [0, 1, 0, 0, 1, 0, 0]
              = Some (?fin\<lparr>workers := map (\<lambda>w. Cancelled) (workers ?fin)\<rparr>)"
    by blast
  have fl: "errlog ?fin = [(0, ''http://a.example/x'', OtherException)]"
      "unfinished_tasks (sched ?fin) = 0"
    by (simp_all add: run_eval url_eval numeral_2_eq_2)
  have b: "\<exists>st'. run generic_urllib handler_one_bad ?S 2 [0, 1, 0, 0, 1, 0, 0] = Some st' \<and>
      list_all (\<lambda>w. w = Cancelled) (workers st') \<and>
      queue (sched st') = [] \<and> unfinished_tasks (sched st') = 0 \<and>
      errlog st' = [(0, ''http://a.example/x'', OtherException)]"
    using b0 f fl by (simp add: list_all_iff)
  have ex: "is_Exception OtherException" by (simp add: is_Exception_def)
  show ?thesis using r ex h2 m(1) a b by blast
qed

end
